theory Spec2Isabelle
  imports Main "HOL-Library.AList" "HOL-Library.Multiset"
begin

section \<open>Python primitives used by \<open>reference_manager.py\<close>\<close>

text \<open>
  Text is a list of characters. A \<^typ>\<open>char\<close> stands for a code point below 256, which
  covers the accented letters of the section names in the source. On
  that range the class \<open>\d\<close> of Python's \<open>re\<close> is exactly \<open>0\<close>..\<open>9\<close>, and
  \<open>str.strip\<close> and \<open>str.split\<close> remove the characters listed in \<open>is_space\<close>.
  Python integers are unbounded: \<^typ>\<open>int\<close>. Converting between an integer and its
  decimal string is not: CPython refuses, with \<open>ValueError\<close>, a conversion in either
  direction that involves more than \<open>sys.int_info.default_max_str_digits = 4300\<close>
  digits. An exception is a value of type \<open>py_error\<close> on the left of a sum.
\<close>

datatype py_error = ValueError

definition max_str_digits :: nat where
  "max_str_digits = 4300"

definition is_digit :: "char \<Rightarrow> bool" where
  "is_digit c = (c \<in> set ''0123456789'')"

definition is_space :: "char \<Rightarrow> bool" where
  "is_space c = (of_char c \<in> {9, 10, 11, 12, 13, 28, 29, 30, 31, 32, 133, 160 :: nat})"

definition digit_val :: "char \<Rightarrow> nat" where
  "digit_val c = of_char c - 48"

definition digit_char :: "nat \<Rightarrow> char" where
  "digit_char d = ''0123456789'' ! d"

text \<open>
  \<open>str(n)\<close> for an integer: decimal, no leading zero, a minus sign when negative;
  \<open>ValueError\<close> when the number has more than 4300 digits.
\<close>

fun str_nat :: "nat \<Rightarrow> string" where
  "str_nat n = (if n < 10 then [digit_char n] else str_nat (n div 10) @ [digit_char (n mod 10)])"

declare str_nat.simps [simp del]

definition decimal :: "int \<Rightarrow> string" where
  "decimal i = (if i < 0 then CHR ''-'' # str_nat (nat (- i)) else str_nat (nat i))"

definition py_str :: "int \<Rightarrow> py_error + string" where
  "py_str i = (if max_str_digits < length (str_nat (nat \<bar>i\<bar>)) then Inl ValueError
               else Inr (decimal i))"

text \<open>
  \<open>int(s)\<close> on a string of decimal digits: \<open>ValueError\<close> when the string has more than
  4300 digits (leading zeros count), its value otherwise. The source calls \<open>int\<close> only
  on the pieces of a group captured by \<open>\d+(?:,\d+)*\<close>, which are non-empty digit
  strings (lemmas \<open>match_citation_sound\<close> and \<open>parse_ref_ids_join\<close> below), so no other
  \<open>ValueError\<close> of \<open>int\<close> occurs there.
\<close>

definition digits_value :: "string \<Rightarrow> int" where
  "digits_value s = int (foldl (\<lambda>n c. 10 * n + digit_val c) 0 s)"

definition py_int :: "string \<Rightarrow> py_error + int" where
  "py_int s = (if max_str_digits < length s then Inl ValueError else Inr (digits_value s))"

text \<open>
  A list comprehension whose element expression may raise: the elements in order, or
  the exception.
\<close>

fun collect :: "(py_error + 'a) list \<Rightarrow> py_error + 'a list" where
  "collect [] = Inr []"
| "collect (x # xs) =
     (case x of
        Inl e \<Rightarrow> Inl e
      | Inr v \<Rightarrow> (case collect xs of Inl e \<Rightarrow> Inl e | Inr vs \<Rightarrow> Inr (v # vs)))"

text \<open>\<open>s.strip()\<close>, \<open>s.rstrip(',')\<close>, \<open>s.split(sep)\<close>, \<open>s.split()\<close> and \<open>sep.join(xs)\<close>.\<close>

definition py_strip :: "string \<Rightarrow> string" where
  "py_strip s = rev (dropWhile is_space (rev (dropWhile is_space s)))"

definition py_rstrip_char :: "char \<Rightarrow> string \<Rightarrow> string" where
  "py_rstrip_char x s = rev (dropWhile (\<lambda>c. c = x) (rev s))"

fun py_split :: "char \<Rightarrow> string \<Rightarrow> string list" where
  "py_split sep [] = [[]]"
| "py_split sep (c # cs) =
     (if c = sep then [] # py_split sep cs
      else (case py_split sep cs of [] \<Rightarrow> [[c]] | p # ps \<Rightarrow> (c # p) # ps))"

fun py_split_ws_from :: "string \<Rightarrow> string \<Rightarrow> string list" where
  "py_split_ws_from w [] = (if w = [] then [] else [w])"
| "py_split_ws_from w (c # cs) =
     (if is_space c then (if w = [] then py_split_ws_from [] cs else w # py_split_ws_from [] cs)
      else py_split_ws_from (w @ [c]) cs)"

definition py_split_ws :: "string \<Rightarrow> string list" where
  "py_split_ws s = py_split_ws_from [] s"

fun py_join :: "string \<Rightarrow> string list \<Rightarrow> string" where
  "py_join sep [] = []"
| "py_join sep [x] = x"
| "py_join sep (x # y # ys) = x @ sep @ py_join sep (y # ys)"

section \<open>The citation pattern \<open>\[(\d+(?:,\d+)*)\]\<close>\<close>

text \<open>
  \<open>scan_group seen s\<close> matches \<open>\d+(?:,\d+)*\]\<close> at the start of \<open>s\<close>, the text that
  follows an opening bracket, and returns the captured group and the text after the
  closing bracket. \<open>seen\<close> tells whether the current run of digits is non-empty. The
  pattern leaves the matcher no choice: a run of digits must be followed by a comma
  or by the closing bracket, so the greedy \<open>\d+\<close> and \<open>(...)*\<close> never succeed after
  backtracking where they failed before.
\<close>

fun scan_group :: "bool \<Rightarrow> string \<Rightarrow> (string \<times> string) option" where
  "scan_group seen [] = None"
| "scan_group seen (c # cs) =
     (if is_digit c then map_option (\<lambda>(g, r). (c # g, r)) (scan_group True cs)
      else if seen \<and> c = CHR '','' then map_option (\<lambda>(g, r). (c # g, r)) (scan_group False cs)
      else if seen \<and> c = CHR '']'' then Some ([], cs)
      else None)"

definition match_citation :: "string \<Rightarrow> (string \<times> string) option" where
  "match_citation s = (case s of [] \<Rightarrow> None
     | c # cs \<Rightarrow> if c = CHR ''['' then scan_group False cs else None)"

lemma scan_group_shorter: "scan_group seen s = Some (g, r) \<Longrightarrow> length r < length s"
proof (induction s arbitrary: seen g)
  case Nil
  then show ?case by simp
next
  case (Cons c cs)
  then show ?case
    by (fastforce split: if_splits)
qed

lemma match_citation_shorter: "match_citation s = Some (g, r) \<Longrightarrow> length r < length s"
  by (auto simp: match_citation_def split: list.splits if_splits dest: scan_group_shorter)

text \<open>
  \<open>re.sub(pattern, repl, text)\<close> and \<open>re.findall(pattern, text)\<close>: a single pass from
  left to right; at each position the pattern is tried, a match is replaced
  (collected) and the scan goes on after it, otherwise the character is kept and the
  scan moves one character on. The pattern never matches the empty string. An
  exception raised by the replacement function ends \<open>re.sub\<close> with that exception.
\<close>

function re_sub :: "(string \<Rightarrow> py_error + string) \<Rightarrow> string \<Rightarrow> py_error + string" where
  "re_sub repl [] = Inr []"
| "re_sub repl (c # cs) =
     (case match_citation (c # cs) of
        Some (g, r) \<Rightarrow>
          (case repl g of
             Inl e \<Rightarrow> Inl e
           | Inr new \<Rightarrow> (case re_sub repl r of Inl e \<Rightarrow> Inl e | Inr rest \<Rightarrow> Inr (new @ rest)))
      | None \<Rightarrow> (case re_sub repl cs of Inl e \<Rightarrow> Inl e | Inr rest \<Rightarrow> Inr (c # rest)))"
  by pat_completeness auto
termination
  by (relation "measure (\<lambda>(repl, s). length s)") (auto dest: match_citation_shorter)

function re_findall :: "string \<Rightarrow> string list" where
  "re_findall [] = []"
| "re_findall (c # cs) =
     (case match_citation (c # cs) of
        Some (g, r) \<Rightarrow> g # re_findall r
      | None \<Rightarrow> re_findall cs)"
  by pat_completeness auto
termination
  by (relation "measure length") (auto dest: match_citation_shorter)

section \<open>\<open>update_citations_in_text\<close>\<close>

text \<open>
  A Python \<open>dict\<close> keeps its keys in insertion order: an association list with
  distinct keys, looked up with \<^const>\<open>map_of\<close> and written with \<^const>\<open>AList.update\<close>.
  \<open>update_citations_in_text\<close> has no \<open>try\<close>: a \<open>ValueError\<close> of \<open>int\<close> or \<open>str\<close>
  inside \<open>replace_citation\<close> leaves the function as that exception.
\<close>

type_synonym id_mapping = "(int \<times> int) list"

type_synonym sections_content = "(string \<times> string) list"

definition parse_ref_ids :: "string \<Rightarrow> py_error + int list" where
  "parse_ref_ids citation = collect (map (\<lambda>i. py_int (py_strip i)) (py_split CHR '','' citation))"

definition map_id :: "id_mapping \<Rightarrow> int \<Rightarrow> int" where
  "map_id id_mapping old_id = (case map_of id_mapping old_id of Some new_id \<Rightarrow> new_id | None \<Rightarrow> old_id)"

definition replace_citation :: "id_mapping \<Rightarrow> string \<Rightarrow> py_error + string" where
  "replace_citation id_mapping citation_content =
     (case parse_ref_ids citation_content of
        Inl e \<Rightarrow> Inl e
      | Inr ref_ids \<Rightarrow>
          (let new_ids = sort (map (map_id id_mapping) ref_ids)
           in case collect (map py_str new_ids) of
                Inl e \<Rightarrow> Inl e
              | Inr strs \<Rightarrow> Inr (''['' @ py_join '','' strs @ '']'')))"

definition update_text :: "id_mapping \<Rightarrow> string \<Rightarrow> py_error + string" where
  "update_text id_mapping text = re_sub (replace_citation id_mapping) text"

definition update_citations_in_text ::
  "sections_content \<Rightarrow> id_mapping \<Rightarrow> py_error + sections_content" where
  "update_citations_in_text sections id_mapping =
     collect (map (\<lambda>(section_name, text).
                     case update_text id_mapping text of
                       Inl e \<Rightarrow> Inl e
                     | Inr updated_text \<Rightarrow> Inr (section_name, updated_text))
                  sections)"

section \<open>Vancouver formatting of a manually entered reference\<close>

text \<open>\<open>re.split(r'[,;]|and|&', authors)\<close>: \<open>w\<close> is the piece collected so far.\<close>

fun re_split_authors_from :: "string \<Rightarrow> string \<Rightarrow> string list" where
  "re_split_authors_from w [] = [w]"
| "re_split_authors_from w (c # cs) =
     (if c = CHR '','' \<or> c = CHR '';'' then w # re_split_authors_from [] cs
      else if c = CHR ''a'' \<and> take 2 cs = ''nd'' then w # re_split_authors_from [] (drop 2 cs)
      else if c = CHR ''&'' then w # re_split_authors_from [] cs
      else re_split_authors_from (w @ [c]) cs)"

definition re_split_authors :: "string \<Rightarrow> string list" where
  "re_split_authors authors = re_split_authors_from [] authors"

text \<open>\<open>''.join([n[0] + '.' for n in parts if n])\<close>\<close>

definition initials_of :: "string list \<Rightarrow> string" where
  "initials_of parts = concat (map (\<lambda>n. [hd n, CHR ''.'']) (filter (\<lambda>n. n \<noteq> []) parts))"

text \<open>The loop \<open>for i, full_name in enumerate(authors)\<close> of \<open>format_manual_vancouver\<close>.\<close>

fun format_authors :: "nat \<Rightarrow> string list \<Rightarrow> string \<Rightarrow> string" where
  "format_authors i [] author_str = author_str"
| "format_authors i (full_name # rest) author_str =
     (let full_name = py_strip full_name in
      if full_name = [] then format_authors (i + 1) rest author_str
      else
        let parts = py_split_ws full_name in
        if 2 \<le> length parts then
          (let family = last parts; initials = initials_of (butlast parts) in
           if i < 6 then format_authors (i + 1) rest (author_str @ family @ '' '' @ initials @ '', '')
           else if i = 6 then author_str @ ''et al. ''
           else format_authors (i + 1) rest author_str)
        else format_authors (i + 1) rest author_str)"

definition format_manual_vancouver ::
  "string list \<Rightarrow> string \<Rightarrow> string \<Rightarrow> string \<Rightarrow> string \<Rightarrow> string \<Rightarrow> string \<Rightarrow> string \<Rightarrow> string" where
  "format_manual_vancouver authors title journal year volume issue pages doi =
     (let author_str = py_rstrip_char CHR '','' (py_strip (format_authors 0 authors []));
          vol_info = year
            @ (if volume \<noteq> [] then '';'' @ volume @ (if issue \<noteq> [] then ''('' @ issue @ '')'' else []) else [])
            @ (if pages \<noteq> [] then '':'' @ pages else [])
            @ ''.'';
          reference_parts =
              (if author_str \<noteq> [] then [author_str] else [])
            @ (if title \<noteq> [] then [title @ ''.''] else [])
            @ (if journal \<noteq> [] then [journal @ ''.''] else [])
            @ (if year \<noteq> [] then [vol_info] else [])
            @ (if doi \<noteq> [] then [''doi:'' @ doi] else [])
      in py_join '' '' reference_parts)"

section \<open>The reference manager\<close>

text \<open>
  A reference is the dictionary \<open>ref_data\<close> of the source: its \<open>'type'\<close> entry and the
  payload that goes with it (\<open>'metadata'\<close> or \<open>'manual_data'\<close>) form \<open>source\<close>. The
  CrossRef metadata is an opaque value of type \<open>'m\<close>.
\<close>

record manual_data =
  md_authors :: "string list"
  md_title :: string
  md_journal :: string
  md_year :: string
  md_volume :: string
  md_issue :: string
  md_pages :: string
  md_doi :: string

datatype 'm ref_source = FromDoi 'm | Manual manual_data

record 'm reference =
  ref_id :: int
  formatted :: string
  doi :: string
  source :: "'m ref_source"

record 'm manager =
  references :: "'m reference list"
  citations :: "(string \<times> int list) list"
  citation_order :: "int list"

text \<open>\<open>ReferenceManager.__init__\<close>\<close>

definition init_manager :: "'m manager" where
  "init_manager = \<lparr>references = [], citations = [], citation_order = []\<rparr>"

text \<open>
  \<open>add_reference_from_doi\<close>. The three functions it calls outside the manager are
  parameters: \<open>extract_doi\<close> (the DOI found in the input, if any), \<open>fetch\<close> (the CrossRef
  lookup, \<open>None\<close> when it fails or returns nothing) and \<open>format_vancouver\<close> (\<open>None\<close>
  when formatting raises, which the \<open>except\<close> clause turns into the result \<open>None\<close>).
\<close>

definition add_reference_from_doi ::
  "(string \<Rightarrow> string option) \<Rightarrow> (string \<Rightarrow> 'm option) \<Rightarrow> ('m \<Rightarrow> string option) \<Rightarrow>
   string \<Rightarrow> 'm manager \<Rightarrow> int option \<times> 'm manager" where
  "add_reference_from_doi extract_doi fetch format_vancouver doi_input st =
     (let clean_doi = py_strip doi_input in
      if clean_doi = [] then (None, st)
      else
        let clean_doi = (case extract_doi clean_doi of Some d \<Rightarrow> d | None \<Rightarrow> clean_doi) in
        case fetch clean_doi of
          None \<Rightarrow> (None, st)
        | Some metadata \<Rightarrow>
            (case format_vancouver metadata of
               None \<Rightarrow> (None, st)
             | Some formatted_ref \<Rightarrow>
                 let ref_data = \<lparr>ref_id = int (length (references st)) + 1,
                                 formatted = formatted_ref, doi = clean_doi,
                                 source = FromDoi metadata\<rparr>
                 in (Some (ref_id ref_data), st\<lparr>references := references st @ [ref_data]\<rparr>)))"

definition add_manual_reference ::
  "string \<Rightarrow> string \<Rightarrow> string \<Rightarrow> string \<Rightarrow> string \<Rightarrow> string \<Rightarrow> string \<Rightarrow> string \<Rightarrow>
   'm manager \<Rightarrow> int option \<times> 'm manager" where
  "add_manual_reference authors title journal year volume issue pages doi_input st =
     (if authors = [] \<or> title = [] \<or> journal = [] \<or> year = [] then (None, st)
      else
        let author_list = filter (\<lambda>a. a \<noteq> []) (map py_strip (re_split_authors authors));
            formatted_ref = format_manual_vancouver author_list title journal year volume issue pages doi_input;
            ref_data = \<lparr>ref_id = int (length (references st)) + 1,
                        formatted = formatted_ref, doi = doi_input,
                        source = Manual \<lparr>md_authors = author_list, md_title = title,
                          md_journal = journal, md_year = year, md_volume = volume,
                          md_issue = issue, md_pages = pages, md_doi = doi_input\<rparr>\<rparr>
        in (Some (ref_id ref_data), st\<lparr>references := references st @ [ref_data]\<rparr>))"

definition get_reference_by_id :: "'m manager \<Rightarrow> int \<Rightarrow> 'm reference option" where
  "get_reference_by_id st rid = find (\<lambda>ref. ref_id ref = rid) (references st)"

text \<open>
  \<open>remove_reference\<close>: nothing in its \<open>try\<close> block can raise, so the result is always
  \<open>True\<close>. \<open>list.remove\<close> deletes the first occurrence.
\<close>

definition remove_reference :: "int \<Rightarrow> 'm manager \<Rightarrow> bool \<times> 'm manager" where
  "remove_reference rid st =
     (True,
      st\<lparr>references := filter (\<lambda>ref. ref_id ref \<noteq> rid) (references st),
         citations := map (\<lambda>(section, ref_list). (section, filter (\<lambda>r. r \<noteq> rid) ref_list)) (citations st),
         citation_order := (if rid \<in> set (citation_order st) then remove1 rid (citation_order st)
                            else citation_order st)\<rparr>)"

definition add_citation :: "string \<Rightarrow> int \<Rightarrow> 'm manager \<Rightarrow> 'm manager" where
  "add_citation section_name rid st =
     (let cits = (case map_of (citations st) section_name of
                    None \<Rightarrow> AList.update section_name [] (citations st)
                  | Some _ \<Rightarrow> citations st);
          cits = (case map_of cits section_name of
                    Some ref_list \<Rightarrow>
                      if rid \<in> set ref_list then cits
                      else AList.update section_name (ref_list @ [rid]) cits
                  | None \<Rightarrow> cits);
          order = (if rid \<in> set (citation_order st) then citation_order st
                   else citation_order st @ [rid])
      in st\<lparr>citations := cits, citation_order := order\<rparr>)"

section \<open>\<open>reorder_references_by_citation\<close>\<close>

definition known_sections :: "string list" where
  "known_sections =
     [''T'' @ [CHR 0xED] @ ''tulo'', ''Resumo'',
      ''Introdu'' @ [CHR 0xE7, CHR 0xE3] @ ''o'',
      ''M'' @ [CHR 0xE9] @ ''todos'', ''Resultados'',
      ''Discuss'' @ [CHR 0xE3] @ ''o'', ''Conclus'' @ [CHR 0xE3] @ ''o'',
      ''Refer'' @ [CHR 0xEA] @ ''ncias'']"

definition section_scan_order :: "sections_content \<Rightarrow> string list" where
  "section_scan_order sections =
     fold (\<lambda>section section_order.
             if section \<in> set section_order then section_order else section_order @ [section])
          (map fst sections) known_sections"

definition note_citation :: "int \<Rightarrow> int list \<Rightarrow> int list" where
  "note_citation rid order = (if rid \<in> set order then order else order @ [rid])"

text \<open>
  The scan of the texts: the loops over the citations of a text and over the section
  names. \<open>int\<close> may raise in the conversion of a citation; the scan then ends with
  that exception.
\<close>

fun scan_citations :: "string list \<Rightarrow> int list \<Rightarrow> py_error + int list" where
  "scan_citations [] order = Inr order"
| "scan_citations (citation # rest) order =
     (case parse_ref_ids citation of
        Inl e \<Rightarrow> Inl e
      | Inr ref_ids \<Rightarrow> scan_citations rest (fold note_citation ref_ids order))"

definition scan_text :: "string \<Rightarrow> int list \<Rightarrow> py_error + int list" where
  "scan_text text order = scan_citations (re_findall text) order"

fun scan_names :: "sections_content \<Rightarrow> string list \<Rightarrow> int list \<Rightarrow> py_error + int list" where
  "scan_names sections [] order = Inr order"
| "scan_names sections (section_name # rest) order =
     (case map_of sections section_name of
        Some text \<Rightarrow>
          (case scan_text text order of
             Inl e \<Rightarrow> Inl e
           | Inr order' \<Rightarrow> scan_names sections rest order')
      | None \<Rightarrow> scan_names sections rest order)"

definition scan_sections :: "sections_content \<Rightarrow> py_error + int list" where
  "scan_sections sections = scan_names sections (section_scan_order sections) []"

text \<open>
  The two numbering loops. Their state is \<open>(id_mapping, new_references, new_id)\<close>.
\<close>

definition assign_cited ::
  "'m manager \<Rightarrow> int \<Rightarrow> id_mapping \<times> 'm reference list \<times> int \<Rightarrow> id_mapping \<times> 'm reference list \<times> int" where
  "assign_cited st old_id acc =
     (case acc of (id_mapping, new_references, new_id) \<Rightarrow>
        (case get_reference_by_id st old_id of
           Some ref \<Rightarrow> (AList.update old_id new_id id_mapping,
                        new_references @ [ref\<lparr>ref_id := new_id\<rparr>], new_id + 1)
         | None \<Rightarrow> (id_mapping, new_references, new_id)))"

definition assign_uncited ::
  "int list \<Rightarrow> 'm reference \<Rightarrow> id_mapping \<times> 'm reference list \<times> int \<Rightarrow> id_mapping \<times> 'm reference list \<times> int" where
  "assign_uncited order ref acc =
     (case acc of (id_mapping, new_references, new_id) \<Rightarrow>
        if ref_id ref \<notin> set order
        then (AList.update (ref_id ref) new_id id_mapping,
              new_references @ [ref\<lparr>ref_id := new_id\<rparr>], new_id + 1)
        else (id_mapping, new_references, new_id))"

text \<open>\<open>[id_mapping[old_id] for old_id in ref_list if old_id in id_mapping]\<close>\<close>

definition remap_ids :: "id_mapping \<Rightarrow> int list \<Rightarrow> int list" where
  "remap_ids id_mapping ref_list = List.map_filter (map_of id_mapping) ref_list"

text \<open>
  The result is \<open>None\<close> when the function returns without a value (no sections) and
  when the \<open>except\<close> clause returns \<open>None\<close>; the returned \<open>id_mapping\<close> otherwise. The
  only statement of the \<open>try\<close> block that raises on a manager whose references all
  have an \<open>'id'\<close> is the \<open>int\<close> of the scan, before anything is assigned to the manager.
\<close>

definition reorder_references_by_citation ::
  "sections_content \<Rightarrow> 'm manager \<Rightarrow> id_mapping option \<times> 'm manager" where
  "reorder_references_by_citation sections st =
     (if sections = [] then (None, st)
      else
        case scan_sections sections of
          Inl e \<Rightarrow> (None, st)
        | Inr order \<Rightarrow>
            (let cited = fold (assign_cited st) order ([], [], 1);
                 final = fold (assign_uncited order) (references st) cited
             in case final of (id_mapping, new_references, new_id) \<Rightarrow>
                  (Some id_mapping,
                   st\<lparr>references := new_references,
                      citations := map (\<lambda>(section, ref_list). (section, remap_ids id_mapping ref_list)) (citations st),
                      citation_order := remap_ids id_mapping (citation_order st)\<rparr>)))"

section \<open>\<open>get_citation_summary\<close>\<close>

record citation_summary =
  total_citations :: int
  unique_references_cited :: int
  total_references :: int
  uncited_references :: int
  sections_with_citations :: int
  citation_distribution :: "(string \<times> int) list"

definition get_citation_summary :: "'m manager \<Rightarrow> citation_summary" where
  "get_citation_summary st =
     (let total = sum_list (map (\<lambda>(section, ref_list). int (length ref_list)) (citations st));
          unique_cited = (if citations st \<noteq> []
                          then int (length (remdups (concat (map snd (citations st))))) else 0);
          with_citations = int (length (filter (\<lambda>(s, refs). refs \<noteq> []) (citations st)))
      in \<lparr>total_citations = total,
          unique_references_cited = unique_cited,
          total_references = int (length (references st)),
          uncited_references = int (length (references st)) - unique_cited,
          sections_with_citations = with_citations,
          citation_distribution = map (\<lambda>(section, refs). (section, int (length refs))) (citations st)\<rparr>)"

section \<open>Citation tokens, declaratively\<close>

text \<open>
  The wire format of a citation token, stated without the matcher: an opening bracket,
  one or more non-empty runs of decimal digits separated by single commas, a closing
  bracket. \<open>has_token s\<close> says that some token occurs in \<open>s\<close>.
\<close>

definition digits :: "string \<Rightarrow> bool" where
  "digits d = (d \<noteq> [] \<and> list_all is_digit d)"

definition well_formed :: "string list \<Rightarrow> bool" where
  "well_formed ds = (ds \<noteq> [] \<and> list_all digits ds)"

definition citation_token :: "string list \<Rightarrow> string" where
  "citation_token ds = ''['' @ py_join '','' ds @ '']''"

definition has_token :: "string \<Rightarrow> bool" where
  "has_token s = (\<exists>p ds r. well_formed ds \<and> s = p @ citation_token ds @ r)"

text \<open>
  The conversion limit, on the side of the texts and mappings: a numeral is \<open>short\<close>
  when it has at most 4300 digits, an integer \<open>printable\<close> when its decimal form has.
  \<open>token_ids\<close> are the integers that the numerals of a captured group denote.
\<close>

definition short :: "string \<Rightarrow> bool" where
  "short d = (length d \<le> max_str_digits)"

definition printable :: "int \<Rightarrow> bool" where
  "printable i = (length (str_nat (nat \<bar>i\<bar>)) \<le> max_str_digits)"

definition token_ids :: "string \<Rightarrow> int list" where
  "token_ids g = map digits_value (py_split CHR '','' g)"

definition group_within_limit :: "string \<Rightarrow> bool" where
  "group_within_limit g = list_all short (py_split CHR '','' g)"

definition text_within_limit :: "string \<Rightarrow> bool" where
  "text_within_limit body = list_all group_within_limit (re_findall body)"

definition sections_within_limit :: "sections_content \<Rightarrow> bool" where
  "sections_within_limit sections = list_all (\<lambda>(name, body). text_within_limit body) sections"

definition values_printable :: "id_mapping \<Rightarrow> bool" where
  "values_printable m = list_all (\<lambda>(k, v). printable v) m"

text \<open>
  For the round trip of \<open>update_citations_in_text\<close>: a captured group is in the form
  the rewrite emits when its IDs are listed in ascending order and each is written as
  \<open>str\<close> prints it (no leading zero, at most 4300 digits); \<open>canonical_group\<close> also asks
  that every ID is a key of the mapping. \<open>inverts m2 m1\<close> says \<open>m2[m1[k]] = k\<close> for every
  key \<open>k\<close> of \<open>m1\<close>.
\<close>

definition canonical_group :: "id_mapping \<Rightarrow> string \<Rightarrow> bool" where
  "canonical_group m1 g =
     (let ds = py_split CHR '','' g
      in sorted (map digits_value ds) \<and>
         list_all (\<lambda>d. decimal (digits_value d) = d \<and> short d) ds \<and>
         list_all (\<lambda>d. digits_value d \<in> fst ` set m1) ds)"

definition inverts :: "id_mapping \<Rightarrow> id_mapping \<Rightarrow> bool" where
  "inverts m2 m1 = list_all (\<lambda>(k, v). map_of m2 v = Some k) m1"

definition nonneg_values :: "id_mapping \<Rightarrow> bool" where
  "nonneg_values m1 = list_all (\<lambda>(k, v). 0 \<le> v) m1"

section \<open>First appearance in canonical order\<close>

text \<open>
  \<open>canonical_order\<close> is the scan order of the sections that exist: the known names
  first, then the remaining sections as given. \<open>number_from j ids\<close> numbers a list of
  IDs consecutively from \<open>j\<close>.
\<close>

definition canonical_order :: "sections_content \<Rightarrow> string list" where
  "canonical_order sections =
     filter (\<lambda>name. name \<in> fst ` set sections) known_sections
     @ filter (\<lambda>name. name \<notin> set known_sections) (map fst sections)"

definition cited_ids :: "sections_content \<Rightarrow> int list" where
  "cited_ids sections =
     concat (map (\<lambda>name. case map_of sections name of
                             Some body \<Rightarrow> concat (map token_ids (re_findall body))
                           | None \<Rightarrow> [])
                 (canonical_order sections))"

definition first_appearance :: "int list \<Rightarrow> int list" where
  "first_appearance ids = rev (remdups (rev ids))"

fun number_from :: "int \<Rightarrow> int list \<Rightarrow> id_mapping" where
  "number_from new_id [] = []"
| "number_from new_id (old_id # rest) = (old_id, new_id) # number_from (new_id + 1) rest"

definition example_sections :: sections_content where
  "example_sections = [(''Intro'', ''finding [3] and [1,3]''), (''Methods'', ''see [2]'')]"

definition known_first_sections :: sections_content where
  "known_first_sections = [(''Notes'', ''see [2]''), (''Resumo'', ''as in [4] and [2,1]'')]"

definition example_manager :: "unit manager" where
  "example_manager =
     \<lparr>references = map (\<lambda>(i, t). \<lparr>ref_id = i, formatted = t, doi = [], source = FromDoi ()\<rparr>)
                        [(1, ''First.''), (2, ''Second.''), (3, ''Third.''), (4, ''Fourth.'')],
      citations = [(''Intro'', [3, 1]), (''Methods'', [2])], citation_order = [3, 1, 2]\<rparr>"

text \<open>
  \<open>renumbered st m\<close> lists, for each pair of the mapping in order, the reference that
  \<open>st\<close> holds under the old ID, carrying the new ID.
\<close>

definition renumbered :: "'m manager \<Rightarrow> id_mapping \<Rightarrow> 'm reference option list" where
  "renumbered st m =
     map (\<lambda>(old_id, new_id). map_option (\<lambda>r. r\<lparr>ref_id := new_id\<rparr>) (get_reference_by_id st old_id)) m"

section \<open>A session that removes a reference and then adds one\<close>

definition after_remove_and_add :: "unit manager" where
  "after_remove_and_add =
     (let s1 = snd (add_manual_reference ''Ana Souza'' ''First'' ''Lancet'' ''2020'' [] [] [] [] init_manager);
          s2 = snd (add_manual_reference ''Rui Lima'' ''Second'' ''BMJ'' ''2021'' [] [] [] [] s1);
          s3 = snd (remove_reference 1 s2)
      in snd (add_manual_reference ''Eva Reis'' ''Third'' ''JAMA'' ''2022'' [] [] [] [] s3))"

section \<open>The matcher finds exactly the citation tokens\<close>

lemma py_join_Cons: "c # py_join sep (d # ds) = py_join sep ((c # d) # ds)"
  by (cases ds) simp_all

lemma py_join_Cons2: "ds \<noteq> [] \<Longrightarrow> py_join sep (d # ds) = d @ sep @ py_join sep ds"
  by (cases ds) simp_all

lemma scan_group_digits:
  "list_all is_digit d \<Longrightarrow>
   scan_group seen (d @ s) = map_option (\<lambda>(g, r). (d @ g, r)) (scan_group (seen \<or> d \<noteq> []) s)"
proof (induction d arbitrary: seen)
  case Nil
  show ?case by (simp add: option.map_ident)
next
  case (Cons c d)
  then show ?case
    by (cases "scan_group True s") (auto simp: option.map_comp comp_def split_def)
qed

lemma is_digit_not_sep: "is_digit c \<Longrightarrow> c \<noteq> CHR '','' \<and> c \<noteq> CHR '']'' \<and> c \<noteq> CHR ''['' \<and> \<not> is_space c"
  by (auto simp: is_digit_def is_space_def)

lemma not_digit_simps [simp]:
  "\<not> is_digit CHR '',''" "\<not> is_digit CHR '']''" "\<not> is_digit CHR ''[''"
  by (simp_all add: is_digit_def)

lemma scan_group_complete:
  "well_formed ds \<Longrightarrow> scan_group False (py_join '','' ds @ CHR '']'' # r) = Some (py_join '','' ds, r)"
proof (induction ds)
  case Nil
  then show ?case by (simp add: well_formed_def)
next
  case (Cons d ds)
  have d: "list_all is_digit d" "d \<noteq> []"
    using Cons.prems by (simp_all add: well_formed_def digits_def)
  show ?case
  proof (cases "ds = []")
    case True
    then show ?thesis using d by (simp add: scan_group_digits)
  next
    case False
    then have wf: "well_formed ds"
      using Cons.prems by (simp add: well_formed_def)
    show ?thesis
      using d False Cons.IH [OF wf]
      by (simp add: py_join_Cons2 scan_group_digits)
  qed
qed

lemma scan_group_sound:
  "scan_group seen s = Some (g, r) \<Longrightarrow>
   s = g @ CHR '']'' # r \<and>
   (\<exists>d ds. g = py_join '','' (d # ds) \<and> list_all is_digit d \<and> (seen \<or> d \<noteq> []) \<and> list_all digits ds)"
proof (induction s arbitrary: seen g)
  case Nil
  then show ?case by simp
next
  case (Cons c cs)
  show ?case
  proof (cases "is_digit c")
    case True
    with Cons.prems obtain g' where g': "scan_group True cs = Some (g', r)" "g = c # g'"
      by auto
    from Cons.IH [OF g'(1)] obtain d ds where
      "cs = g' @ CHR '']'' # r" "g' = py_join '','' (d # ds)" "list_all is_digit d" "list_all digits ds"
      by blast
    then show ?thesis
      using True g'(2) by (auto simp: py_join_Cons intro!: exI [of _ "c # d"] exI [of _ ds])
  next
    case nd: False
    show ?thesis
    proof (cases "seen \<and> c = CHR '',''")
      case True
      with nd Cons.prems obtain g' where g': "scan_group False cs = Some (g', r)" "g = c # g'"
        by auto
      from Cons.IH [OF g'(1)] obtain d ds where
        *: "cs = g' @ CHR '']'' # r" "g' = py_join '','' (d # ds)" "list_all is_digit d" "d \<noteq> []" "list_all digits ds"
        by blast
      have "g = py_join '','' ([] # d # ds)"
        using * g'(2) True by simp
      moreover have "list_all digits (d # ds)"
        using * by (simp add: digits_def)
      ultimately show ?thesis
        using * True g'(2) by (intro conjI exI [of _ "[]"] exI [of _ "d # ds"]) simp_all
    next
      case False
      with nd Cons.prems have "seen" "c = CHR '']''" "g = []" "r = cs"
        by (auto split: if_splits)
      then show ?thesis
        by (intro conjI exI [of _ "[]"] exI [of _ "[]"]) simp_all
    qed
  qed
qed

lemma match_citation_sound:
  assumes "match_citation s = Some (g, r)"
  shows "\<exists>ds. well_formed ds \<and> g = py_join '','' ds \<and> s = citation_token ds @ r"
proof -
  from assms obtain cs where s: "s = CHR ''['' # cs" and sg: "scan_group False cs = Some (g, r)"
    by (auto simp: match_citation_def split: list.splits if_splits)
  from scan_group_sound [OF sg] obtain d ds where
    "cs = g @ CHR '']'' # r" "g = py_join '','' (d # ds)" "list_all is_digit d" "d \<noteq> []" "list_all digits ds"
    by blast
  then show ?thesis
    using s by (intro exI [of _ "d # ds"]) (simp add: well_formed_def digits_def citation_token_def)
qed

lemma match_citation_complete:
  "well_formed ds \<Longrightarrow> match_citation (citation_token ds @ r) = Some (py_join '','' ds, r)"
  by (simp add: match_citation_def citation_token_def scan_group_complete)


lemma has_token_Cons: "has_token s \<Longrightarrow> has_token (c # s)"
  unfolding has_token_def by (metis append_Cons)

lemma token_no_bracket:
  "well_formed ds \<Longrightarrow> CHR ''['' \<notin> set (py_join '','' ds @ '']'')"
proof (induction ds)
  case Nil
  then show ?case by (simp add: well_formed_def)
next
  case (Cons d ds)
  have d: "CHR ''['' \<notin> set d"
    using Cons.prems by (auto simp: well_formed_def digits_def list_all_iff)
  show ?case
  proof (cases "ds = []")
    case True
    then show ?thesis using d by simp
  next
    case False
    then have "well_formed ds" using Cons.prems by (simp add: well_formed_def)
    then show ?thesis using Cons.IH d False by (simp add: py_join_Cons2)
  qed
qed

lemma match_before_token:
  assumes m: "match_citation (p @ citation_token ds @ r) = Some (g, r')" and p: "p \<noteq> []"
  shows "has_token p"
proof -
  from match_citation_sound [OF m] obtain es where
    es: "well_formed es" "p @ citation_token ds @ r = citation_token es @ r'"
    by blast
  from p obtain c p' where pc: "p = c # p'" by (cases p) auto
  from es(2) obtain us where
    "(citation_token es = p @ us \<and> us @ r' = citation_token ds @ r) \<or>
     (citation_token es @ us = p \<and> r' = us @ citation_token ds @ r)"
    by (metis append_eq_append_conv2)
  then show ?thesis
  proof
    assume a: "citation_token es = p @ us \<and> us @ r' = citation_token ds @ r"
    show ?thesis
    proof (cases us)
      case Nil
      with a have "p = [] @ citation_token es @ []" by simp
      then show ?thesis using es(1) unfolding has_token_def by blast
    next
      case (Cons u us')
      with a have "u = CHR ''[''" by (simp add: citation_token_def)
      with a Cons pc have "py_join '','' es @ '']'' = p' @ CHR ''['' # us'"
        by (simp add: citation_token_def)
      then have "CHR ''['' \<in> set (py_join '','' es @ '']'')"
        by (metis in_set_conv_decomp)
      then show ?thesis using token_no_bracket [OF es(1)] by simp
    qed
  next
    assume "citation_token es @ us = p \<and> r' = us @ citation_token ds @ r"
    then have "p = [] @ citation_token es @ us" by simp
    then show ?thesis using es(1) unfolding has_token_def by blast
  qed
qed


lemma re_sub_no_token: "\<not> has_token s \<Longrightarrow> re_sub f s = Inr s"
proof (induction s)
  case Nil
  show ?case by simp
next
  case (Cons c cs)
  have "match_citation (c # cs) = None"
  proof (cases "match_citation (c # cs)")
    case None
    then show ?thesis .
  next
    case (Some gr)
    obtain g r where "gr = (g, r)" by (cases gr)
    with Some match_citation_sound [of "c # cs" g r] obtain ds where
      "well_formed ds" "c # cs = [] @ citation_token ds @ r" by auto
    then have "has_token (c # cs)" unfolding has_token_def by blast
    with Cons.prems show ?thesis by simp
  qed
  moreover have "\<not> has_token cs" using Cons.prems has_token_Cons by blast
  ultimately show ?case using Cons.IH by simp
qed

lemma re_sub_first_token:
  "well_formed ds \<Longrightarrow> \<not> has_token p \<Longrightarrow>
   re_sub f (p @ citation_token ds @ r)
     = (case f (py_join '','' ds) of
          Inl e \<Rightarrow> Inl e
        | Inr new \<Rightarrow> (case re_sub f r of Inl e \<Rightarrow> Inl e | Inr rest \<Rightarrow> Inr (p @ new @ rest)))"
proof (induction p)
  case Nil
  then show ?case
    using match_citation_complete [of ds r]
    by (cases "citation_token ds @ r") (simp_all add: citation_token_def split: sum.splits)
next
  case (Cons c p)
  have "match_citation ((c # p) @ citation_token ds @ r) = None"
  proof (cases "match_citation ((c # p) @ citation_token ds @ r)")
    case None
    then show ?thesis .
  next
    case (Some gr)
    obtain g r' where "gr = (g, r')" by (cases gr)
    with Some match_before_token [of "c # p" ds r g r'] have "has_token (c # p)" by simp
    with Cons.prems show ?thesis by simp
  qed
  moreover have "\<not> has_token p" using Cons.prems has_token_Cons by blast
  ultimately show ?case using Cons.IH Cons.prems(1) by (simp split: sum.splits)
qed

lemma re_findall_groups:
  "g \<in> set (re_findall s) \<Longrightarrow> \<exists>ds. well_formed ds \<and> g = py_join '','' ds"
proof (induction s rule: re_findall.induct)
  case 1
  then show ?case by simp
next
  case (2 c cs)
  show ?case
  proof (cases "match_citation (c # cs)")
    case None
    with 2 show ?thesis by simp
  next
    case (Some gr)
    obtain g' r where gr: "gr = (g', r)" by (cases gr)
    from Some gr match_citation_sound [of "c # cs" g' r] obtain ds where
      "well_formed ds" "g' = py_join '','' ds" by auto
    with 2 Some gr show ?thesis by auto
  qed
qed

lemma re_findall_has_token: "has_token s \<longleftrightarrow> re_findall s \<noteq> []"
proof
  assume "has_token s"
  then obtain p ds r where wf: "well_formed ds" and s: "s = p @ citation_token ds @ r"
    unfolding has_token_def by blast
  have "re_findall (p @ citation_token ds @ r) \<noteq> []"
  proof (induction p)
    case Nil
    show ?case
      using match_citation_complete [OF wf, of r]
      by (cases "citation_token ds @ r") (simp_all add: citation_token_def)
  next
    case (Cons c p)
    then show ?case by (cases "match_citation (c # p @ citation_token ds @ r)") auto
  qed
  with s show "re_findall s \<noteq> []" by simp
next
  assume "re_findall s \<noteq> []"
  then show "has_token s"
  proof (induction s)
    case Nil
    then show ?case by simp
  next
    case (Cons c cs)
    show ?case
    proof (cases "match_citation (c # cs)")
      case None
      with Cons show ?thesis by (simp add: has_token_Cons)
    next
      case (Some gr)
      obtain g r where "gr = (g, r)" by (cases gr)
      with Some match_citation_sound [of "c # cs" g r] obtain ds where
        "well_formed ds" "c # cs = [] @ citation_token ds @ r" by auto
      then show ?thesis unfolding has_token_def by blast
    qed
  qed
qed

lemma py_split_join:
  "ds \<noteq> [] \<Longrightarrow> \<forall>d\<in>set ds. sep \<notin> set d \<Longrightarrow> py_split sep (py_join [sep] ds) = ds"
proof (induction ds)
  case Nil
  then show ?case by simp
next
  case (Cons d ds)
  have one: "sep \<notin> set x \<Longrightarrow> py_split sep (x @ sep # t) = x # py_split sep t" for x t
    by (induction x) (auto split: list.splits)
  have last: "sep \<notin> set x \<Longrightarrow> py_split sep x = [x]" for x
    by (induction x) (auto split: list.splits)
  show ?case
  proof (cases "ds = []")
    case True
    then show ?thesis using Cons.prems last by simp
  next
    case False
    then show ?thesis using Cons one by (simp add: py_join_Cons2)
  qed
qed

lemma py_strip_digits: "list_all is_digit d \<Longrightarrow> py_strip d = d"
proof (cases d rule: rev_cases)
  case Nil
  then show ?thesis by (simp add: py_strip_def)
next
  case (snoc xs x)
  assume a: "list_all is_digit d"
  then have "\<not> is_space x" using snoc is_digit_not_sep by auto
  moreover have "dropWhile is_space d = d"
    using a is_digit_not_sep by (cases d) auto
  ultimately show ?thesis using snoc by (simp add: py_strip_def)
qed


lemma collect_map_guard:
  "collect (map (\<lambda>x. if P x then Inr (g x) else Inl ValueError) xs)
     = (if list_all P xs then Inr (map g xs) else Inl ValueError)"
  by (induction xs) auto

lemma py_int_short: "py_int = (\<lambda>d. if short d then Inr (digits_value d) else Inl ValueError)"
  by (auto simp: fun_eq_iff py_int_def short_def)

lemma py_str_printable: "py_str = (\<lambda>i. if printable i then Inr (decimal i) else Inl ValueError)"
  by (auto simp: fun_eq_iff py_str_def printable_def)

lemma split_well_formed: "well_formed ds \<Longrightarrow> py_split CHR '','' (py_join '','' ds) = ds"
proof -
  assume wf: "well_formed ds"
  have nosep: "\<forall>d\<in>set ds. CHR '','' \<notin> set d"
    using wf is_digit_not_sep by (auto simp: well_formed_def digits_def list_all_iff)
  show ?thesis
    using wf nosep py_split_join [of ds "CHR '',''"] by (simp add: well_formed_def)
qed

lemma parse_ref_ids_join:
  assumes "well_formed ds"
  shows "parse_ref_ids (py_join '','' ds)
           = (if list_all short ds then Inr (map digits_value ds) else Inl ValueError)"
proof -
  have "\<forall>d\<in>set ds. py_strip d = d"
    using assms py_strip_digits by (auto simp: well_formed_def digits_def list_all_iff)
  then have "map (\<lambda>i. py_int (py_strip i)) ds
      = map (\<lambda>d. if short d then Inr (digits_value d) else Inl ValueError) ds"
    by (simp add: py_int_short)
  then show ?thesis
    unfolding parse_ref_ids_def split_well_formed [OF assms]
    by (simp only: collect_map_guard)
qed

lemma token_ids_join: "well_formed ds \<Longrightarrow> token_ids (py_join '','' ds) = map digits_value ds"
  by (simp add: token_ids_def split_well_formed)

lemma group_within_limit_join:
  "well_formed ds \<Longrightarrow> group_within_limit (py_join '','' ds) = list_all short ds"
  by (simp add: group_within_limit_def split_well_formed)

lemma parse_ref_ids_group:
  assumes "g \<in> set (re_findall s)"
  shows "parse_ref_ids g = (if group_within_limit g then Inr (token_ids g) else Inl ValueError)"
proof -
  from re_findall_groups [OF assms] obtain ds where "well_formed ds" "g = py_join '','' ds"
    by blast
  then show ?thesis
    by (simp add: parse_ref_ids_join token_ids_join group_within_limit_join)
qed

section \<open>Decimal numerals\<close>

lemma digit_char_props:
  assumes "d < 10"
  shows "is_digit (digit_char d)" "digit_val (digit_char d) = d"
proof -
  from assms have "d \<in> {0, 1, 2, 3, 4, 5, 6, 7, 8, 9}" by auto
  then show "is_digit (digit_char d)" "digit_val (digit_char d) = d"
    by (auto simp: digit_char_def is_digit_def digit_val_def)
qed

lemma digit_val_less: "is_digit c \<Longrightarrow> digit_val c < 10"
  by (auto simp: is_digit_def digit_val_def)

lemma digits_value_snoc: "digits_value (s @ [c]) = 10 * digits_value s + int (digit_val c)"
  by (simp add: digits_value_def)

lemma str_nat_digits: "digits (str_nat n)"
proof (induction n rule: str_nat.induct)
  case (1 n)
  show ?case
  proof (cases "n < 10")
    case True
    then show ?thesis using digit_char_props(1) [of n] by (simp add: str_nat.simps [of n] digits_def)
  next
    case False
    then show ?thesis
      using 1 digit_char_props(1) [of "n mod 10"]
      by (simp add: str_nat.simps [of n] digits_def)
  qed
qed

lemma digits_value_str_nat: "digits_value (str_nat n) = int n"
proof (induction n rule: str_nat.induct)
  case (1 n)
  show ?case
  proof (cases "n < 10")
    case True
    then show ?thesis
      using digit_char_props(2) [of n] by (simp add: str_nat.simps [of n] digits_value_def)
  next
    case False
    have "int n = int (10 * (n div 10) + n mod 10)" by simp
    also have "\<dots> = 10 * int (n div 10) + int (n mod 10)"
      by (simp only: of_nat_add of_nat_mult of_nat_numeral)
    finally have "10 * int (n div 10) + int (n mod 10) = int n" by simp
    with False show ?thesis
      using 1 digit_char_props(2) [of "n mod 10"]
      by (simp add: str_nat.simps [of n] digits_value_snoc)
  qed
qed

lemma digits_value_decimal: "0 \<le> i \<Longrightarrow> digits_value (decimal i) = i"
  by (simp add: decimal_def digits_value_str_nat)

lemma decimal_digits: "0 \<le> i \<Longrightarrow> digits (decimal i)"
  by (simp add: decimal_def str_nat_digits)

lemma digits_value_nonneg: "0 \<le> digits_value s"
  by (simp add: digits_value_def)

lemma length_str_nat_foldl:
  "list_all is_digit d \<Longrightarrow> d \<noteq> [] \<Longrightarrow>
   length (str_nat (foldl (\<lambda>n c. 10 * n + digit_val c) 0 d)) \<le> length d"
proof (induction d rule: rev_induct)
  case Nil
  then show ?case by simp
next
  case (snoc c xs)
  let ?v = "foldl (\<lambda>n c. 10 * n + digit_val c) 0 xs"
  have c: "digit_val c < 10" using snoc.prems digit_val_less by simp
  show ?case
  proof (cases "10 * ?v + digit_val c < 10")
    case True
    then show ?thesis by (simp add: str_nat.simps [of "10 * ?v + digit_val c"])
  next
    case False
    with c have ne: "xs \<noteq> []" by (cases xs) auto
    have "(10 * ?v + digit_val c) div 10 = ?v" using c by simp
    with False have "length (str_nat (10 * ?v + digit_val c)) = length (str_nat ?v) + 1"
      by (simp add: str_nat.simps [of "10 * ?v + digit_val c"])
    moreover have "length (str_nat ?v) \<le> length xs"
      using snoc.IH snoc.prems ne by simp
    ultimately show ?thesis by simp
  qed
qed

lemma printable_digits_value: "digits d \<Longrightarrow> short d \<Longrightarrow> printable (digits_value d)"
  using length_str_nat_foldl [of d]
  by (simp add: digits_def short_def printable_def digits_value_def)

lemma short_decimal: "0 \<le> i \<Longrightarrow> printable i \<Longrightarrow> short (decimal i)"
  by (simp add: printable_def short_def decimal_def)

lemma sort_map_sort: "sort (map f (sort xs)) = sort (map f xs)"
  by (rule properties_for_sort) simp_all

section \<open>Rewriting the citation tokens of a text\<close>

lemma not_has_token_Nil: "\<not> has_token []"
  by (simp add: has_token_def citation_token_def)

lemma replace_citation_token:
  "well_formed ds \<Longrightarrow>
   replace_citation m (py_join '','' ds)
     = (if list_all short ds \<and> list_all printable (sort (map (\<lambda>d. map_id m (digits_value d)) ds))
        then Inr (citation_token (map decimal (sort (map (\<lambda>d. map_id m (digits_value d)) ds))))
        else Inl ValueError)"
  by (simp add: replace_citation_def parse_ref_ids_join py_str_printable collect_map_guard
        citation_token_def comp_def)

lemma mapped_ids_printable:
  assumes wf: "well_formed ds" and sh: "list_all short ds" and vp: "values_printable m"
  shows "list_all printable (sort (map (\<lambda>d. map_id m (digits_value d)) ds))"
proof -
  have "printable (map_id m (digits_value d))" if d: "d \<in> set ds" for d
  proof (cases "map_of m (digits_value d)")
    case None
    have "digits d" "short d" using wf sh d by (auto simp: well_formed_def list_all_iff)
    then show ?thesis using None by (simp add: map_id_def printable_digits_value)
  next
    case (Some v)
    then have "(digits_value d, v) \<in> set m" by (rule map_of_SomeD)
    with vp have "printable v" by (auto simp: values_printable_def list_all_iff)
    with Some show ?thesis by (simp add: map_id_def)
  qed
  then show ?thesis by (auto simp: list_all_iff)
qed

lemma update_text_first_token:
  assumes "well_formed ds" "\<not> has_token p" "list_all short ds" "values_printable m"
  shows "update_text m (p @ citation_token ds @ r)
     = (case update_text m r of
          Inl e \<Rightarrow> Inl e
        | Inr rest \<Rightarrow>
            Inr (p @ citation_token (map decimal (sort (map (\<lambda>d. map_id m (digits_value d)) ds)))
                   @ rest))"
  using assms mapped_ids_printable [of ds m]
  by (simp add: update_text_def re_sub_first_token replace_citation_token)

lemma update_text_defined:
  "text_within_limit s \<Longrightarrow> values_printable m \<Longrightarrow> \<exists>t. update_text m s = Inr t"
proof (induction s rule: re_findall.induct)
  case 1
  show ?case by (simp add: update_text_def)
next
  case (2 c cs)
  show ?case
  proof (cases "match_citation (c # cs)")
    case None
    with 2 obtain t where "update_text m cs = Inr t"
      by (auto simp: text_within_limit_def)
    with None show ?thesis by (simp add: update_text_def)
  next
    case (Some gr)
    obtain g r where gr: "gr = (g, r)" by (cases gr)
    with Some have mc: "match_citation (c # cs) = Some (g, r)" by simp
    from match_citation_sound [OF mc] obtain ds where
      wf: "well_formed ds" and g: "g = py_join '','' ds" and s: "c # cs = citation_token ds @ r"
      by blast
    from 2(3) mc have lim: "group_within_limit g" "text_within_limit r"
      by (simp_all add: text_within_limit_def)
    have "\<exists>t. update_text m r = Inr t" using 2 Some gr lim by auto
    then obtain t where t: "update_text m r = Inr t" by blast
    have sh: "list_all short ds" using lim(1) wf g by (simp add: group_within_limit_join)
    from update_text_first_token [OF wf not_has_token_Nil sh 2(4), of r] t s
    show ?thesis by simp
  qed
qed

lemma re_sub_head:
  assumes f: "\<forall>g new. f g = Inr new \<longrightarrow> (\<exists>x. new = CHR ''['' # x)"
    and r: "re_sub f (c # cs) = Inr out"
  shows "\<exists>x. out = c # x"
proof (cases "match_citation (c # cs)")
  case None
  with r show ?thesis by (auto split: sum.splits)
next
  case (Some gr)
  obtain g r' where gr: "gr = (g, r')" by (cases gr)
  from Some have c: "c = CHR ''[''"
    by (auto simp: match_citation_def split: if_splits)
  from r Some gr obtain new rest where n: "f g = Inr new" "out = new @ rest"
    by (auto split: sum.splits)
  from f n(1) obtain x where "new = CHR ''['' # x" by blast
  with n(2) c show ?thesis by simp
qed

lemma scan_group_re_sub_None:
  assumes f: "\<forall>g new. f g = Inr new \<longrightarrow> (\<exists>x. new = CHR ''['' # x)"
  shows "scan_group seen cs = None \<Longrightarrow> re_sub f cs = Inr out \<Longrightarrow> scan_group seen out = None"
proof (induction cs arbitrary: seen out)
  case Nil
  then show ?case by simp
next
  case (Cons c cs)
  from re_sub_head [OF f Cons.prems(2)] obtain x where x: "out = c # x" by blast
  show ?case
  proof (cases "is_digit c \<or> (seen \<and> c = CHR '','')")
    case True
    then have nb: "c \<noteq> CHR ''[''" using is_digit_not_sep by auto
    then have "match_citation (c # cs) = None" by (simp add: match_citation_def)
    with Cons.prems(2) x have rest: "re_sub f cs = Inr x"
      by (auto split: sum.splits)
    show ?thesis
    proof (cases "is_digit c")
      case d: True
      with Cons.prems have "scan_group True cs = None" by simp
      from Cons.IH [OF this rest] d x show ?thesis by simp
    next
      case nd: False
      with True Cons.prems have "scan_group False cs = None" by simp
      from Cons.IH [OF this rest] nd True x show ?thesis by simp
    qed
  next
    case False
    with Cons.prems have "\<not> (seen \<and> c = CHR '']'')" by (auto split: if_splits)
    with False x show ?thesis by auto
  qed
qed

lemma match_citation_re_sub_None:
  assumes f: "\<forall>g new. f g = Inr new \<longrightarrow> (\<exists>x. new = CHR ''['' # x)"
    and n: "match_citation (c # cs) = None" and r: "re_sub f cs = Inr rest"
  shows "match_citation (c # rest) = None"
  using n scan_group_re_sub_None [OF f _ r, of False]
  by (auto simp: match_citation_def split: if_splits)

lemma replace_citation_head:
  "\<forall>g new. replace_citation m g = Inr new \<longrightarrow> (\<exists>x. new = CHR ''['' # x)"
  by (auto simp: replace_citation_def Let_def split: sum.splits)

lemma sorted_sort_id_int: "sorted (xs :: int list) \<Longrightarrow> sort xs = xs"
  by (simp add: sort_key_id_if_sorted)

lemma group_round_trip:
  assumes wf: "well_formed ds" and canon: "canonical_group m1 (py_join '','' ds)"
    and inv: "inverts m2 m1" and nn: "nonneg_values m1" and vp: "values_printable m1"
  defines "ds' \<equiv> map decimal (sort (map (\<lambda>d. map_id m1 (digits_value d)) ds))"
  shows "well_formed ds'"
    and "replace_citation m1 (py_join '','' ds) = Inr (citation_token ds')"
    and "replace_citation m2 (py_join '','' ds') = Inr (citation_token ds)"
proof -
  from canon wf have srt: "sorted (map digits_value ds)"
    and can: "\<forall>d\<in>set ds. decimal (digits_value d) = d"
    and sh: "list_all short ds"
    and dom: "\<forall>d\<in>set ds. digits_value d \<in> fst ` set m1"
    by (simp_all add: canonical_group_def Let_def list_all_iff split_well_formed)
  have step: "0 \<le> map_id m1 (digits_value d) \<and> printable (map_id m1 (digits_value d)) \<and>
              map_id m2 (map_id m1 (digits_value d)) = digits_value d"
    if "d \<in> set ds" for d
  proof -
    from dom that obtain v where v: "map_of m1 (digits_value d) = Some v"
      by (metis domD dom_map_of_conv_image_fst)
    then have "(digits_value d, v) \<in> set m1" by (rule map_of_SomeD)
    with inv nn vp have "map_of m2 v = Some (digits_value d)" "0 \<le> v" "printable v"
      by (auto simp: inverts_def nonneg_values_def values_printable_def list_all_iff)
    with v show ?thesis by (simp add: map_id_def)
  qed
  let ?new = "sort (map (\<lambda>d. map_id m1 (digits_value d)) ds)"
  have nonneg: "\<forall>i\<in>set ?new. 0 \<le> i \<and> printable i" using step by auto
  have "length ?new = length ds" by simp
  with wf have "?new \<noteq> []" by (auto simp: well_formed_def simp del: length_sort)
  then show wf': "well_formed ds'"
    using nonneg decimal_digits
    by (auto simp: ds'_def well_formed_def list_all_iff)
  have p1: "list_all printable ?new" using nonneg by (simp add: list_all_iff)
  show "replace_citation m1 (py_join '','' ds) = Inr (citation_token ds')"
    using sh p1 by (simp add: replace_citation_token [OF wf] ds'_def)
  have sh': "list_all short ds'"
    using nonneg short_decimal by (auto simp: ds'_def list_all_iff)
  have "map digits_value ds' = map (digits_value \<circ> decimal) ?new"
    by (simp add: ds'_def)
  also have "\<dots> = ?new"
    by (rule map_idI) (use nonneg digits_value_decimal in auto)
  finally have "map digits_value ds' = ?new" .
  then have "map (\<lambda>d. map_id m2 (digits_value d)) ds' = map (map_id m2) ?new"
    by (metis (no_types, lifting) list.map_comp comp_def map_eq_conv)
  then have "sort (map (\<lambda>d. map_id m2 (digits_value d)) ds')
      = sort (map (map_id m2) (sort (map (\<lambda>d. map_id m1 (digits_value d)) ds)))"
    by simp
  also have "\<dots> = sort (map (map_id m2) (map (\<lambda>d. map_id m1 (digits_value d)) ds))"
    by (rule sort_map_sort)
  also have "map (map_id m2) (map (\<lambda>d. map_id m1 (digits_value d)) ds) = map digits_value ds"
    using step by simp
  also have "sort (map digits_value ds) = map digits_value ds"
    using srt by (rule sorted_sort_id_int)
  finally have new2: "sort (map (\<lambda>d. map_id m2 (digits_value d)) ds') = map digits_value ds" .
  have p2: "list_all printable (map digits_value ds)"
    using wf sh printable_digits_value by (auto simp: well_formed_def list_all_iff)
  have "map decimal (map digits_value ds) = ds" using can by (simp add: map_idI)
  then show "replace_citation m2 (py_join '','' ds') = Inr (citation_token ds)"
    using sh' p2 by (simp add: replace_citation_token [OF wf'] new2)
qed

text \<open>
  Claim C4, amended. When the second mapping inverts the first, the first maps to
  non-negative IDs of at most 4300 digits, and every token of the text lists keys of
  the first mapping in ascending order, each written as \<open>str\<close> prints it (no leading
  zero, at most 4300 digits), rewriting with the first mapping succeeds and rewriting
  its result with the second gives the text back.
\<close>

theorem C4_round_trip_on_normal_tokens:
  assumes inv: "inverts m2 m1" and nn: "nonneg_values m1" and vp: "values_printable m1"
    and canon: "list_all (canonical_group m1) (re_findall body)"
  shows "\<exists>mid. update_text m1 body = Inr mid \<and> update_text m2 mid = Inr body"
  using canon
proof (induction body rule: re_findall.induct)
  case 1
  show ?case by (simp add: update_text_def)
next
  case (2 c cs)
  show ?case
  proof (cases "match_citation (c # cs)")
    case None
    with 2 obtain mid where mid: "update_text m1 cs = Inr mid" "update_text m2 mid = Inr cs"
      by auto
    from None mid(1) have one: "update_text m1 (c # cs) = Inr (c # mid)"
      by (simp add: update_text_def)
    have "match_citation (c # mid) = None"
      using match_citation_re_sub_None [OF replace_citation_head None] mid(1)
      by (simp add: update_text_def)
    with mid(2) have "update_text m2 (c # mid) = Inr (c # cs)"
      by (simp add: update_text_def)
    with one show ?thesis by blast
  next
    case (Some gr)
    obtain g r where gr: "gr = (g, r)" by (cases gr)
    with Some have m: "match_citation (c # cs) = Some (g, r)" by simp
    from match_citation_sound [OF m] obtain ds where
      wf: "well_formed ds" and g: "g = py_join '','' ds" and s: "c # cs = citation_token ds @ r"
      by blast
    from 2 m have cg: "canonical_group m1 g" and rest: "list_all (canonical_group m1) (re_findall r)"
      by simp_all
    have "\<exists>mid. update_text m1 r = Inr mid \<and> update_text m2 mid = Inr r"
      using 2 Some gr rest by auto
    then obtain mid where mid: "update_text m1 r = Inr mid" "update_text m2 mid = Inr r"
      by blast
    let ?ds' = "map decimal (sort (map (\<lambda>d. map_id m1 (digits_value d)) ds))"
    from group_round_trip [OF wf cg [unfolded g] inv nn vp]
    have wf': "well_formed ?ds'"
      and r1: "replace_citation m1 (py_join '','' ds) = Inr (citation_token ?ds')"
      and r2: "replace_citation m2 (py_join '','' ?ds') = Inr (citation_token ds)"
      by simp_all
    have one: "update_text m1 (c # cs) = Inr (citation_token ?ds' @ mid)"
      using re_sub_first_token [OF wf not_has_token_Nil, of "replace_citation m1" r] r1 mid(1)
      by (simp add: s update_text_def)
    have two: "update_text m2 (citation_token ?ds' @ mid) = Inr (c # cs)"
      using re_sub_first_token [OF wf' not_has_token_Nil, of "replace_citation m2" mid] r2 mid(2)
      by (simp add: s update_text_def)
    from one two show ?thesis by blast
  qed
qed

lemma re_findall_token:
  "well_formed ds \<Longrightarrow> re_findall (citation_token ds @ r) = py_join '','' ds # re_findall r"
  using match_citation_complete [of ds r]
  by (cases "citation_token ds @ r") (simp_all add: citation_token_def)

lemma single_token_text:
  assumes "digits d"
  shows "re_findall (CHR ''['' # d @ '']'') = [d]"
    and "text_within_limit (CHR ''['' # d @ '']'') = short d"
    and "token_ids d = [digits_value d]"
proof -
  from assms have wf: "well_formed [d]" by (simp add: well_formed_def)
  from re_findall_token [OF wf, of "[]"] show f: "re_findall (CHR ''['' # d @ '']'') = [d]"
    by (simp add: citation_token_def)
  from group_within_limit_join [OF wf] f show "text_within_limit (CHR ''['' # d @ '']'') = short d"
    by (simp add: text_within_limit_def)
  from token_ids_join [OF wf] show "token_ids d = [digits_value d]" by simp
qed

lemma long_digit_run:
  assumes "is_digit c" "max_str_digits < n"
  shows "digits (replicate n c)" "\<not> short (replicate n c)"
proof -
  from assms(2) have "0 < n" by simp
  with assms(1) show "digits (replicate n c)"
    by (auto simp: digits_def list_all_iff)
  show "\<not> short (replicate n c)"
    using assms(2) by (simp add: short_def)
qed

lemma py_error_unique: "(e :: py_error) = ValueError"
  by (cases e) simp

lemma update_text_fails: "\<not> text_within_limit s \<Longrightarrow> update_text m s = Inl ValueError"
proof (induction s rule: re_findall.induct)
  case 1
  then show ?case by (simp add: text_within_limit_def)
next
  case (2 c cs)
  show ?case
  proof (cases "match_citation (c # cs)")
    case None
    with 2 have "update_text m cs = Inl ValueError"
      by (auto simp: text_within_limit_def)
    with None show ?thesis by (simp add: update_text_def)
  next
    case (Some gr)
    obtain g r where gr: "gr = (g, r)" by (cases gr)
    with Some have mc: "match_citation (c # cs) = Some (g, r)" by simp
    from match_citation_sound [OF mc] obtain ds where
      wf: "well_formed ds" and g: "g = py_join '','' ds"
      by blast
    show ?thesis
    proof (cases "group_within_limit g")
      case False
      then have "replace_citation m g = Inl ValueError"
        using wf g by (simp add: replace_citation_token group_within_limit_join)
      with mc show ?thesis by (simp add: update_text_def)
    next
      case True
      with 2(3) mc have "\<not> text_within_limit r" by (simp add: text_within_limit_def)
      then have "update_text m r = Inl ValueError" using 2 Some gr by auto
      with mc show ?thesis
        by (cases "replace_citation m g") (simp_all add: update_text_def py_error_unique)
    qed
  qed
qed

lemma update_text_long_replicate:
  assumes c: "is_digit c" and n: "max_str_digits < n"
  shows "update_text m (CHR ''['' # replicate n c @ '']'') = Inl ValueError"
  using long_digit_run [OF c n] by (intro update_text_fails) (simp add: single_token_text(2))

lemma length_str_nat_lower: "10 ^ k \<le> n \<Longrightarrow> k < length (str_nat n)"
proof (induction k arbitrary: n)
  case 0
  show ?case by (simp add: str_nat.simps [of n])
next
  case (Suc k)
  from Suc.prems have "10 * 10 ^ k \<le> n" by simp
  then have "10 ^ k \<le> n div 10" by simp
  from Suc.IH [OF this] have "k < length (str_nat (n div 10))" .
  moreover have "\<not> n < 10"
  proof -
    have "(1::nat) \<le> 10 ^ k" by simp
    with \<open>10 * 10 ^ k \<le> n\<close> show ?thesis by linarith
  qed
  ultimately show ?case by (simp add: str_nat.simps [of n])
qed

lemma not_printable_power: "max_str_digits \<le> k \<Longrightarrow> \<not> printable (10 ^ k)"
proof -
  assume k: "max_str_digits \<le> k"
  have e: "nat \<bar>10 ^ k :: int\<bar> = 10 ^ k" by (simp add: nat_power_eq)
  show ?thesis
    unfolding printable_def e
    using length_str_nat_lower [of k "10 ^ k"] k by simp
qed

lemma update_text_unprintable_value:
  assumes "\<not> printable v"
  shows "update_text [(1, v)] ''[1]'' = Inl ValueError"
proof -
  have wf: "well_formed [''1'']" by code_simp
  have v: "digits_value ''1'' = 1" by code_simp
  from replace_citation_token [OF wf, of "[(1, v)]"]
  have "replace_citation [(1, v)] (py_join '','' [''1'']) = Inl ValueError"
    using assms by (simp add: v map_id_def)
  then have "update_text [(1, v)] ([] @ citation_token [''1''] @ []) = Inl ValueError"
    unfolding update_text_def re_sub_first_token [OF wf not_has_token_Nil] by simp
  then show ?thesis by (simp add: citation_token_def)
qed

lemma update_sections_defined:
  "sections_within_limit sections \<Longrightarrow> values_printable m \<Longrightarrow>
   \<exists>out. update_citations_in_text sections m = Inr out \<and> map fst out = map fst sections \<and>
         map (\<lambda>(name, body). Inr body) out = map (\<lambda>(name, body). update_text m body) sections"
proof (induction sections)
  case Nil
  show ?case by (simp add: update_citations_in_text_def)
next
  case (Cons a sections)
  obtain name body where a: "a = (name, body)" by (cases a)
  from Cons.prems a have "text_within_limit body" "sections_within_limit sections"
    by (simp_all add: sections_within_limit_def)
  with Cons obtain out t where
    out: "update_citations_in_text sections m = Inr out" "map fst out = map fst sections"
      "map (\<lambda>(name, body). Inr body) out = map (\<lambda>(name, body). update_text m body) sections"
    and t: "update_text m body = Inr t"
    using update_text_defined [of body m] by blast
  then show ?case
    using a by (simp add: update_citations_in_text_def)
qed

text \<open>
  The theorem of C4 with the mapping that swaps 1 and 2.
\<close>

theorem C4_witness:
  "inverts [(2, 1), (1, 2)] [(1, 2), (2, 1)] \<and> nonneg_values [(1, 2), (2, 1)] \<and>
   values_printable [(1, 2), (2, 1)] \<and>
   list_all (canonical_group [(1, 2), (2, 1)]) (re_findall ''see [1,2] and [2], not [x]'') \<and>
   (\<exists>mid. update_text [(1, 2), (2, 1)] ''see [1,2] and [2], not [x]'' = Inr mid \<and>
          update_text [(2, 1), (1, 2)] mid = Inr ''see [1,2] and [2], not [x]'')"
proof -
  have h1: "inverts [(2, 1), (1, 2)] [(1, 2), (2, 1)]" by code_simp
  have h2: "nonneg_values [(1, 2), (2, 1)]" by code_simp
  have h3: "values_printable [(1, 2), (2, 1)]" by code_simp
  have h4: "list_all (canonical_group [(1, 2), (2, 1)]) (re_findall ''see [1,2] and [2], not [x]'')"
    by code_simp
  show ?thesis
    using C4_round_trip_on_normal_tokens [OF h1 h2 h3 h4] h1 h2 h3 h4 by simp
qed

text \<open>
  Claim C4 as stated fails: a token that is not in ascending order and a token with a
  leading zero come back changed, a mapping to a negative number emits \<open>[-1]\<close>, which
  the second pass leaves alone, and a mapping to \<open>10^4300\<close> makes \<open>str\<close> raise;
  in each case every cited ID is a key of the first mapping and the second mapping
  inverts it.
\<close>

theorem C4_counterexample:
  "update_text [(1, 2), (2, 1)] ''[2,1]'' = Inr ''[1,2]'' \<and>
   update_text [(2, 1), (1, 2)] ''[1,2]'' = Inr ''[1,2]'' \<and>
   update_text [(1, 1)] ''[01]'' = Inr ''[1]'' \<and>
   update_text [(1, 1)] ''[1]'' = Inr ''[1]'' \<and>
   update_text [(1, - 1)] ''[1]'' = Inr ''[-1]'' \<and>
   update_text [(- 1, 1)] ''[-1]'' = Inr ''[-1]'' \<and>
   update_text [(1, 10 ^ 4300)] ''[1]'' = Inl ValueError"
proof -
  have small: "update_text [(1, 2), (2, 1)] ''[2,1]'' = Inr ''[1,2]'' \<and>
   update_text [(2, 1), (1, 2)] ''[1,2]'' = Inr ''[1,2]'' \<and>
   update_text [(1, 1)] ''[01]'' = Inr ''[1]'' \<and>
   update_text [(1, 1)] ''[1]'' = Inr ''[1]'' \<and>
   update_text [(1, - 1)] ''[1]'' = Inr ''[-1]'' \<and>
   update_text [(- 1, 1)] ''[-1]'' = Inr ''[-1]''"
    by code_simp
  have "max_str_digits \<le> 4300" by (simp add: max_str_digits_def)
  then have "\<not> printable (10 ^ 4300)" by (rule not_printable_power)
  then have big: "update_text [(1, 10 ^ 4300)] ''[1]'' = Inl ValueError"
    by (rule update_text_unprintable_value)
  from small big show ?thesis by blast
qed

text \<open>
  Claim C3, amended. A text without citation token is returned as it is, and so are
  \<open>[abc]\<close> and \<open>[1,]\<close>. When the numerals of the first token have at most 4300 digits
  and so have the values of \<open>id_mapping\<close>, the token-free prefix \<open>p\<close> is kept, the token
  is replaced by the bracketed, comma-joined, ascending list of its IDs mapped through
  \<open>id_mapping\<close> (an ID that is not a key stays as it is), and the rest of the text is
  rewritten in the same way. A text all of whose token numerals have at most 4300
  digits is rewritten without exception, and so is every section of such texts; a text
  with a longer numeral in a token makes the call raise \<open>ValueError\<close>.
\<close>

theorem C3_update_text_rewrites_tokens_only:
  "(\<not> has_token s \<longrightarrow> update_text m s = Inr s) \<and>
   (well_formed ds \<and> \<not> has_token p \<and> list_all short ds \<and> values_printable m \<longrightarrow>
      update_text m (p @ citation_token ds @ r)
        = (case update_text m r of
             Inl e \<Rightarrow> Inl e
           | Inr rest \<Rightarrow>
               Inr (p @ ''['' @ py_join '',''
                      (map decimal (sort (map (\<lambda>d. case map_of m (digits_value d) of
                                                     Some new_id \<Rightarrow> new_id
                                                   | None \<Rightarrow> digits_value d) ds)))
                    @ '']'' @ rest))) \<and>
   (text_within_limit s \<and> values_printable m \<longrightarrow> (\<exists>t. update_text m s = Inr t)) \<and>
   (\<not> text_within_limit s \<longrightarrow> update_text m s = Inl ValueError) \<and>
   update_text m ''[abc]'' = Inr ''[abc]'' \<and>
   update_text m ''[1,]'' = Inr ''[1,]'' \<and>
   (sections_within_limit sections \<and> values_printable m \<longrightarrow>
      (\<exists>out. update_citations_in_text sections m = Inr out \<and>
             map fst out = map fst sections \<and>
             map (\<lambda>(section_name, body). Inr body) out
               = map (\<lambda>(section_name, body). update_text m body) sections))"
proof (intro conjI impI)
  assume "\<not> has_token s"
  then show "update_text m s = Inr s"
    by (simp add: update_text_def re_sub_no_token)
next
  assume a: "well_formed ds \<and> \<not> has_token p \<and> list_all short ds \<and> values_printable m"
  then have "well_formed ds" "\<not> has_token p" "list_all short ds" "values_printable m"
    by simp_all
  from update_text_first_token [OF this, of r]
  show "update_text m (p @ citation_token ds @ r)
        = (case update_text m r of
             Inl e \<Rightarrow> Inl e
           | Inr rest \<Rightarrow>
               Inr (p @ ''['' @ py_join '',''
                      (map decimal (sort (map (\<lambda>d. case map_of m (digits_value d) of
                                                     Some new_id \<Rightarrow> new_id
                                                   | None \<Rightarrow> digits_value d) ds)))
                    @ '']'' @ rest))"
    by (auto simp: citation_token_def map_id_def split: sum.splits)
next
  assume "text_within_limit s \<and> values_printable m"
  then show "\<exists>t. update_text m s = Inr t"
    using update_text_defined [of s m] by simp
next
  assume "\<not> text_within_limit s"
  then show "update_text m s = Inl ValueError"
    by (rule update_text_fails)
next
  have "re_findall ''[abc]'' = []" by code_simp
  then have "\<not> has_token ''[abc]''"
    using re_findall_has_token [of "''[abc]''"] by blast
  then have "re_sub (replace_citation m) ''[abc]'' = Inr ''[abc]''"
    by (rule re_sub_no_token)
  then show "update_text m ''[abc]'' = Inr ''[abc]''"
    by (simp only: update_text_def)
next
  have "re_findall ''[1,]'' = []" by code_simp
  then have "\<not> has_token ''[1,]''"
    using re_findall_has_token [of "''[1,]''"] by blast
  then have "re_sub (replace_citation m) ''[1,]'' = Inr ''[1,]''"
    by (rule re_sub_no_token)
  then show "update_text m ''[1,]'' = Inr ''[1,]''"
    by (simp only: update_text_def)
next
  assume "sections_within_limit sections \<and> values_printable m"
  then show "\<exists>out. update_citations_in_text sections m = Inr out \<and>
             map fst out = map fst sections \<and>
             map (\<lambda>(section_name, body). Inr body) out
               = map (\<lambda>(section_name, body). update_text m body) sections"
    using update_sections_defined [of sections m] by simp
qed

text \<open>
  Claim C3 as stated fails: on the token made of 4301 digits \<open>7\<close> the call raises
  \<open>ValueError\<close> instead of returning a rewritten text.
\<close>

theorem C3_counterexample:
  "update_text [] (CHR ''['' # replicate 4301 CHR ''7'' @ '']'') = Inl ValueError"
proof (rule update_text_long_replicate)
  show "is_digit CHR ''7''" by (simp add: is_digit_def)
  show "max_str_digits < 4301" by (simp add: max_str_digits_def)
qed

text \<open>
  Claim C7, amended. For a citation token whose numerals have at most 4300 digits and
  a mapping whose values have at most 4300 digits, the emitted token lists the mapped
  IDs in ascending order, each as many times as IDs of the token are mapped to it: as
  many IDs as the token had, duplicates kept.
\<close>

theorem C7_duplicates_are_kept:
  "well_formed ds \<Longrightarrow> list_all short ds \<Longrightarrow> values_printable m \<Longrightarrow>
   \<exists>new_ids. update_text m (citation_token ds) = Inr (citation_token (map decimal new_ids)) \<and>
             sorted new_ids \<and> length new_ids = length ds \<and>
             mset new_ids = image_mset (\<lambda>d. map_id m (digits_value d)) (mset ds)"
proof -
  assume wf: "well_formed ds" and sh: "list_all short ds" and vp: "values_printable m"
  let ?new = "sort (map (\<lambda>d. map_id m (digits_value d)) ds)"
  have "update_text m (citation_token ds) = Inr (citation_token (map decimal ?new))"
    using update_text_first_token [OF wf not_has_token_Nil sh vp, of "[]"]
    by (simp add: update_text_def)
  moreover have "sorted ?new" by simp
  moreover have "length ?new = length ds" by simp
  moreover have "mset ?new = image_mset (\<lambda>d. map_id m (digits_value d)) (mset ds)" by simp
  ultimately show ?thesis by blast
qed

text \<open>
  The theorem of C7 on the token \<open>[2,2]\<close> with 2 mapped to 5.
\<close>

theorem C7_witness:
  "well_formed [''2'', ''2''] \<and> list_all short [''2'', ''2''] \<and> values_printable [(2, 5)] \<and>
   (\<exists>new_ids. update_text [(2, 5)] ''[2,2]'' = Inr (citation_token (map decimal new_ids)) \<and>
              sorted new_ids \<and> length new_ids = 2 \<and> mset new_ids = {#5, 5#})"
proof -
  have h: "well_formed [''2'', ''2'']" by code_simp
  have h2: "list_all short [''2'', ''2'']" by code_simp
  have h3: "values_printable [(2, 5)]" by code_simp
  have tok: "citation_token [''2'', ''2''] = ''[2,2]''" by code_simp
  have v: "map_id [(2, 5)] (digits_value ''2'') = 5" by code_simp
  from C7_duplicates_are_kept [OF h h2 h3] h h2 h3 show ?thesis
    by (simp add: tok v eval_nat_numeral)
qed

text \<open>
  Claim C7 as stated fails: \<open>[2,2]\<close> is emitted as \<open>[2,2]\<close>, not \<open>[2]\<close>, and two IDs
  mapped to the same ID are both emitted.
\<close>

theorem C7_counterexample:
  "update_text [] ''[2,2]'' = Inr ''[2,2]'' \<and> update_text [] ''[2,2]'' \<noteq> Inr ''[2]'' \<and>
   update_text [(1, 4), (3, 4)] ''[3,1]'' = Inr ''[4,4]''"
  by code_simp


text \<open>
  The theorem of C3 on a text without token, on a text with the token \<open>[7,3,1]\<close>
  between malformed brackets, on a token of 4301 digits, and on the example sections.
\<close>

theorem C3_witness:
  "\<not> has_token ''no [a] token [1, 2] here [3'' \<and>
   update_text [(3, 1), (1, 2)] ''no [a] token [1, 2] here [3'' = Inr ''no [a] token [1, 2] here [3'' \<and>
   well_formed [''7'', ''3'', ''1''] \<and> \<not> has_token ''as shown [x] in '' \<and>
   list_all short [''7'', ''3'', ''1''] \<and> values_printable [(3, 1), (1, 2)] \<and>
   update_text [(3, 1), (1, 2)] (''as shown [x] in '' @ ''[7,3,1]'' @ '' and [1,]'')
     = Inr ''as shown [x] in [1,2,7] and [1,]'' \<and>
   \<not> text_within_limit (CHR ''['' # replicate 4301 CHR ''7'' @ '']'') \<and>
   update_text [(3, 1), (1, 2)] (CHR ''['' # replicate 4301 CHR ''7'' @ '']'') = Inl ValueError \<and>
   text_within_limit ''see [3] and [12,1]'' \<and>
   (\<exists>t. update_text [(3, 1), (1, 2)] ''see [3] and [12,1]'' = Inr t) \<and>
   sections_within_limit example_sections \<and>
   (\<exists>out. update_citations_in_text example_sections [(3, 1), (1, 2)] = Inr out \<and>
          map fst out = map fst example_sections \<and>
          map (\<lambda>(section_name, body). Inr body) out
            = map (\<lambda>(section_name, body). update_text [(3, 1), (1, 2)] body) example_sections)"
proof -
  let ?m = "[(3, 1), (1, 2)] :: id_mapping"
  have f1: "re_findall ''no [a] token [1, 2] here [3'' = []" by code_simp
  have h1: "\<not> has_token ''no [a] token [1, 2] here [3''"
    using f1 re_findall_has_token [of "''no [a] token [1, 2] here [3''"] by blast
  have f2: "re_findall ''as shown [x] in '' = []" by code_simp
  have h2: "\<not> has_token ''as shown [x] in ''"
    using f2 re_findall_has_token [of "''as shown [x] in ''"] by blast
  have f3: "re_findall '' and [1,]'' = []" by code_simp
  have h3: "\<not> has_token '' and [1,]''"
    using f3 re_findall_has_token [of "'' and [1,]''"] by blast
  have wf: "well_formed [''7'', ''3'', ''1'']" by code_simp
  have sh: "list_all short [''7'', ''3'', ''1'']" by code_simp
  have vp: "values_printable ?m" by code_simp
  have d: "is_digit CHR ''7''" by (simp add: is_digit_def)
  have n: "max_str_digits < 4301" by (simp add: max_str_digits_def)
  have big: "\<not> text_within_limit (CHR ''['' # replicate 4301 CHR ''7'' @ '']'')"
    using long_digit_run [OF d n] by (simp add: single_token_text(2))
  have lim: "text_within_limit ''see [3] and [12,1]''" by code_simp
  have slim: "sections_within_limit example_sections" by code_simp
  have tok: "citation_token [''7'', ''3'', ''1''] = ''[7,3,1]''" by code_simp
  have ren: "''['' @ py_join '',''
                (map decimal (sort (map (\<lambda>d. case map_of ?m (digits_value d) of
                       Some new_id \<Rightarrow> new_id | None \<Rightarrow> digits_value d) [''7'', ''3'', ''1''])))
            @ '']'' = ''[1,2,7]''" by code_simp
  from C3_update_text_rewrites_tokens_only [of "''no [a] token [1, 2] here [3''" ?m] h1
  have a: "update_text ?m ''no [a] token [1, 2] here [3'' = Inr ''no [a] token [1, 2] here [3''"
    by blast
  from C3_update_text_rewrites_tokens_only [of "'' and [1,]''" ?m] h3
  have r: "update_text ?m '' and [1,]'' = Inr '' and [1,]''"
    by blast
  from C3_update_text_rewrites_tokens_only
    [of _ ?m "[''7'', ''3'', ''1'']" "''as shown [x] in ''" "'' and [1,]''"] h2 wf sh vp
  have "update_text ?m (''as shown [x] in '' @ citation_token [''7'', ''3'', ''1''] @ '' and [1,]'')
        = (case update_text ?m '' and [1,]'' of
             Inl e \<Rightarrow> Inl e
           | Inr rest \<Rightarrow>
               Inr (''as shown [x] in '' @ ''['' @ py_join '',''
                      (map decimal (sort (map (\<lambda>d. case map_of ?m (digits_value d) of
                                                     Some new_id \<Rightarrow> new_id
                                                   | None \<Rightarrow> digits_value d) [''7'', ''3'', ''1''])))
                    @ '']'' @ rest))"
    by blast
  then have "update_text ?m (''as shown [x] in '' @ ''[7,3,1]'' @ '' and [1,]'')
        = Inr (''as shown [x] in '' @ (''['' @ py_join '',''
                      (map decimal (sort (map (\<lambda>d. case map_of ?m (digits_value d) of
                                                     Some new_id \<Rightarrow> new_id
                                                   | None \<Rightarrow> digits_value d) [''7'', ''3'', ''1''])))
                    @ '']'') @ '' and [1,]'')"
    by (simp only: tok r sum.case append_assoc)
  then have b: "update_text ?m (''as shown [x] in '' @ ''[7,3,1]'' @ '' and [1,]'')
     = Inr ''as shown [x] in [1,2,7] and [1,]''"
    by (simp only: ren) simp
  from C3_update_text_rewrites_tokens_only [of "CHR ''['' # replicate 4301 CHR ''7'' @ '']''" ?m] big
  have c: "update_text ?m (CHR ''['' # replicate 4301 CHR ''7'' @ '']'') = Inl ValueError"
    by blast
  from C3_update_text_rewrites_tokens_only [of "''see [3] and [12,1]''" ?m] lim vp
  have e: "\<exists>t. update_text ?m ''see [3] and [12,1]'' = Inr t"
    by blast
  from C3_update_text_rewrites_tokens_only [of _ ?m _ _ _ example_sections] slim vp
  have g: "\<exists>out. update_citations_in_text example_sections ?m = Inr out \<and>
          map fst out = map fst example_sections \<and>
          map (\<lambda>(section_name, body). Inr body) out
            = map (\<lambda>(section_name, body). update_text ?m body) example_sections"
    by blast
  from h1 a wf h2 sh vp b big c lim e slim g show ?thesis by blast
qed

section \<open>The reference store\<close>

lemma py_join_nonempty: "x \<in> set xs \<Longrightarrow> x \<noteq> [] \<Longrightarrow> py_join sep xs \<noteq> []"
  by (induction sep xs rule: py_join.induct) auto

lemma format_manual_vancouver_nonempty:
  "title \<noteq> [] \<Longrightarrow> format_manual_vancouver authors title journal year volume issue pages d \<noteq> []"
  unfolding format_manual_vancouver_def Let_def
  by (rule py_join_nonempty [of "title @ ''.''"]) simp_all

text \<open>
  Claim C8. \<open>add_manual_reference\<close> returns no ID and leaves the manager as it was
  whenever one of authors, title, journal, year is empty; the result \<open>None\<close> is
  distinct from every success \<open>Some id\<close>. When the four fields are non-empty it appends
  one reference whose formatted string is non-empty and returns that reference's ID.
\<close>

theorem C8_add_manual_reference_validation:
  "(authors = [] \<or> title = [] \<or> journal = [] \<or> year = [] \<longrightarrow>
      add_manual_reference authors title journal year volume issue pages d st = (None, st)) \<and>
   (authors \<noteq> [] \<and> title \<noteq> [] \<and> journal \<noteq> [] \<and> year \<noteq> [] \<longrightarrow>
      (\<exists>r. add_manual_reference authors title journal year volume issue pages d st
              = (Some (ref_id r), st\<lparr>references := references st @ [r]\<rparr>) \<and>
            formatted r \<noteq> [] \<and> ref_id r = int (length (references st)) + 1))"
proof (intro conjI impI)
  assume "authors = [] \<or> title = [] \<or> journal = [] \<or> year = []"
  then show "add_manual_reference authors title journal year volume issue pages d st = (None, st)"
    by (simp add: add_manual_reference_def)
next
  assume a: "authors \<noteq> [] \<and> title \<noteq> [] \<and> journal \<noteq> [] \<and> year \<noteq> []"
  define author_list where "author_list = filter (\<lambda>a. a \<noteq> []) (map py_strip (re_split_authors authors))"
  define r :: "'a reference" where
    "r = \<lparr>ref_id = int (length (references st)) + 1,
          formatted = format_manual_vancouver author_list title journal year volume issue pages d,
          doi = d,
          source = Manual \<lparr>md_authors = author_list, md_title = title,
            md_journal = journal, md_year = year, md_volume = volume,
            md_issue = issue, md_pages = pages, md_doi = d\<rparr>\<rparr>"
  have "add_manual_reference authors title journal year volume issue pages d st
          = (Some (ref_id r), st\<lparr>references := references st @ [r]\<rparr>)"
    using a by (simp add: add_manual_reference_def Let_def r_def author_list_def)
  moreover have "formatted r \<noteq> []"
    using a by (simp add: r_def format_manual_vancouver_nonempty)
  moreover have "ref_id r = int (length (references st)) + 1"
    by (simp add: r_def)
  ultimately show "\<exists>r. add_manual_reference authors title journal year volume issue pages d st
              = (Some (ref_id r), st\<lparr>references := references st @ [r]\<rparr>) \<and>
            formatted r \<noteq> [] \<and> ref_id r = int (length (references st)) + 1"
    by blast
qed

text \<open>
  The theorem of C8 at a submission without title and at a complete one.
\<close>

theorem C8_witness:
  "add_manual_reference ''Ana Souza'' [] ''Lancet'' ''2020'' [] [] [] [] (init_manager :: unit manager)
     = (None, init_manager) \<and>
   (\<exists>r. add_manual_reference ''Ana Souza'' ''Trial'' ''Lancet'' ''2020'' [] [] [] [] (init_manager :: unit manager)
           = (Some (ref_id r), init_manager\<lparr>references := references init_manager @ [r]\<rparr>) \<and>
         formatted r \<noteq> [] \<and> ref_id r = 1)"
  using C8_add_manual_reference_validation [of "''Ana Souza''" "[]" "''Lancet''" "''2020''" "[]" "[]" "[]" "[]" "init_manager :: unit manager"]
    C8_add_manual_reference_validation [of "''Ana Souza''" "''Trial''" "''Lancet''" "''2020''" "[]" "[]" "[]" "[]" "init_manager :: unit manager"]
  by (simp add: init_manager_def)



text \<open>
  Claim C10. \<open>add_citation\<close> records the ID in the section's list and in the global
  order on every manager, also when no reference has that ID, and leaves the
  references alone. \<open>get_citation_summary\<close> reports as uncited the number of
  references minus the number of distinct IDs in the citation lists; after one
  \<open>add_citation\<close> on a fresh manager that is \<open>-1\<close>.
\<close>

theorem C10_add_citation_unchecked_and_negative_uncited:
  "(\<exists>ref_list. map_of (citations (add_citation section_name rid st)) section_name = Some ref_list \<and>
               rid \<in> set ref_list) \<and>
   rid \<in> set (citation_order (add_citation section_name rid st)) \<and>
   references (add_citation section_name rid st) = references st \<and>
   uncited_references (get_citation_summary st)
     = int (length (references st)) - int (card (\<Union> (set ` snd ` set (citations st)))) \<and>
   uncited_references (get_citation_summary (add_citation ''Intro'' 7 init_manager)) = - 1"
proof (intro conjI)
  show "\<exists>ref_list. map_of (citations (add_citation section_name rid st)) section_name = Some ref_list \<and>
               rid \<in> set ref_list"
    by (cases "map_of (citations st) section_name")
       (auto simp: add_citation_def Let_def update_conv')
  show "rid \<in> set (citation_order (add_citation section_name rid st))"
    by (simp add: add_citation_def Let_def)
  show "references (add_citation section_name rid st) = references st"
    by (simp add: add_citation_def Let_def)
  have "set (concat (map snd (citations st))) = \<Union> (set ` snd ` set (citations st))"
    by auto
  then have "length (remdups (concat (map snd (citations st)))) = card (\<Union> (set ` snd ` set (citations st)))"
    by (metis length_remdups_card_conv)
  then show "uncited_references (get_citation_summary st)
     = int (length (references st)) - int (card (\<Union> (set ` snd ` set (citations st))))"
    by (cases "citations st") (simp_all add: get_citation_summary_def Let_def)
  show "uncited_references (get_citation_summary (add_citation ''Intro'' 7 init_manager)) = - 1"
    by (simp add: get_citation_summary_def add_citation_def init_manager_def Let_def)
qed

text \<open>
  Claim C5 on the code: two manual references are added (IDs 1 and 2), reference 1
  is removed, a third is added. The new reference gets \<open>len(self.references) + 1 = 2\<close>,
  the ID of the reference that is still live.
\<close>

theorem C5_id_reused_after_removal:
  "map ref_id (references after_remove_and_add) = [2, 2] \<and>
   \<not> distinct (map ref_id (references after_remove_and_add))"
  by (simp add: after_remove_and_add_def add_manual_reference_def remove_reference_def init_manager_def Let_def)

section \<open>Renumbering by first appearance\<close>

lemma fold_assign_cited_empty:
  "references st = [] \<Longrightarrow> fold (assign_cited st) order acc = acc"
  by (induction order arbitrary: acc) (auto simp: assign_cited_def get_reference_by_id_def)

lemma remap_ids_empty: "remap_ids [] l = []"
  by (induction l) (simp_all add: remap_ids_def List.map_filter_simps)


lemma fold_append_new:
  "distinct ks \<Longrightarrow>
   fold (\<lambda>s order. if s \<in> set order then order else order @ [s]) ks order
     = order @ filter (\<lambda>k. k \<notin> set order) ks"
proof (induction ks arbitrary: order)
  case Nil
  show ?case by simp
next
  case (Cons k ks)
  show ?case
  proof (cases "k \<in> set order")
    case True
    with Cons show ?thesis by simp
  next
    case False
    have "filter (\<lambda>x. x \<notin> set (order @ [k])) ks = filter (\<lambda>x. x \<notin> set order) ks"
      using Cons.prems by (intro filter_cong) auto
    with False Cons show ?thesis by simp
  qed
qed

lemma section_scan_order_eq:
  "distinct (map fst sections) \<Longrightarrow>
   section_scan_order sections
     = known_sections @ filter (\<lambda>name. name \<notin> set known_sections) (map fst sections)"
  by (simp add: section_scan_order_def fold_append_new)

lemma fold_note_citation: "fold note_citation ids [] = first_appearance ids"
proof (induction ids rule: rev_induct)
  case Nil
  show ?case by (simp add: first_appearance_def)
next
  case (snoc x xs)
  have "set (first_appearance xs) = set xs" by (simp add: first_appearance_def)
  with snoc show ?case
    by (simp add: first_appearance_def note_citation_def)
qed

lemma fold_fold_concat: "fold (\<lambda>x. fold f (g x)) xs a = fold f (concat (map g xs)) a"
  by (induction xs arbitrary: a) simp_all

lemma concat_map_filter_nonempty:
  "\<forall>x\<in>set xs. \<not> P x \<longrightarrow> f x = [] \<Longrightarrow> concat (map f (filter P xs)) = concat (map f xs)"
  by (induction xs) auto

lemma scan_citations_eq:
  "\<forall>g\<in>set gs. parse_ref_ids g
       = (if group_within_limit g then Inr (token_ids g) else Inl ValueError) \<Longrightarrow>
   scan_citations gs order
     = (if list_all group_within_limit gs
        then Inr (fold note_citation (concat (map token_ids gs)) order)
        else Inl ValueError)"
  by (induction gs arbitrary: order) auto

lemma scan_text_eq:
  "scan_text body order
     = (if text_within_limit body
        then Inr (fold note_citation (concat (map token_ids (re_findall body))) order)
        else Inl ValueError)"
  unfolding scan_text_def text_within_limit_def
  by (rule scan_citations_eq) (simp add: parse_ref_ids_group)

lemma scan_names_eq:
  "scan_names sections names order
     = (if \<forall>name\<in>set names. \<forall>body. map_of sections name = Some body \<longrightarrow> text_within_limit body
        then Inr (fold note_citation
                    (concat (map (\<lambda>name. case map_of sections name of
                                    Some body \<Rightarrow> concat (map token_ids (re_findall body))
                                  | None \<Rightarrow> []) names)) order)
        else Inl ValueError)"
proof (induction names arbitrary: order)
  case Nil
  show ?case by simp
next
  case (Cons name names)
  show ?case
  proof (cases "map_of sections name")
    case None
    then show ?thesis using Cons.IH [of order] by simp
  next
    case (Some body)
    show ?thesis
    proof (cases "text_within_limit body")
      case True
      then show ?thesis
        using Some Cons.IH [of "fold note_citation (concat (map token_ids (re_findall body))) order"]
        by (simp add: scan_text_eq)
    next
      case False
      then show ?thesis using Some by (simp add: scan_text_eq)
    qed
  qed
qed

lemma scan_sections_within_limit:
  assumes "sections_within_limit sections"
  shows "scan_sections sections
     = Inr (first_appearance (concat (map (\<lambda>name. case map_of sections name of
                 Some body \<Rightarrow> concat (map token_ids (re_findall body)) | None \<Rightarrow> [])
               (section_scan_order sections))))"
proof -
  have "text_within_limit body" if "map_of sections name = Some body" for name body
  proof -
    from that have "(name, body) \<in> set sections" by (rule map_of_SomeD)
    with assms show ?thesis by (auto simp: sections_within_limit_def list_all_iff)
  qed
  then show ?thesis
    unfolding scan_sections_def scan_names_eq by (simp add: fold_note_citation)
qed

lemma scan_sections_eq:
  assumes "distinct (map fst sections)" "sections_within_limit sections"
  shows "scan_sections sections = Inr (first_appearance (cited_ids sections))"
proof -
  let ?ids = "\<lambda>name. case map_of sections name of
                 Some body \<Rightarrow> concat (map token_ids (re_findall body)) | None \<Rightarrow> []"
  have none: "map_of sections name = None" if "name \<notin> fst ` set sections" for name
    using that by (simp add: map_of_eq_None_iff)
  have absent: "\<forall>name\<in>set known_sections. \<not> name \<in> fst ` set sections \<longrightarrow> ?ids name = []"
    using none by simp
  have "concat (map ?ids (section_scan_order sections)) = cited_ids sections"
    unfolding cited_ids_def canonical_order_def section_scan_order_eq [OF assms(1)]
    using concat_map_filter_nonempty [OF absent] by simp
  then show ?thesis by (simp add: scan_sections_within_limit [OF assms(2)])
qed

lemma scan_sections_fails:
  assumes d: "distinct (map fst sections)" and l: "\<not> sections_within_limit sections"
  shows "scan_sections sections = Inl ValueError"
proof -
  from l obtain name body where nb: "(name, body) \<in> set sections" "\<not> text_within_limit body"
    by (auto simp: sections_within_limit_def list_all_iff)
  with d have "map_of sections name = Some body" by simp
  moreover have "name \<in> set (section_scan_order sections)"
    using nb(1) by (force simp: section_scan_order_eq [OF d])
  ultimately have "\<not> (\<forall>name\<in>set (section_scan_order sections).
      \<forall>body. map_of sections name = Some body \<longrightarrow> text_within_limit body)"
    using nb(2) by blast
  then show ?thesis
    unfolding scan_sections_def scan_names_eq by simp
qed

lemma get_reference_by_id_Some:
  "rid \<in> ref_id ` set (references st) \<Longrightarrow> \<exists>ref. get_reference_by_id st rid = Some ref"
  unfolding get_reference_by_id_def
  by (cases "find (\<lambda>ref. ref_id ref = rid) (references st)") (auto simp: find_None_iff)

lemma get_reference_by_id_None:
  "rid \<notin> ref_id ` set (references st) \<Longrightarrow> get_reference_by_id st rid = None"
  unfolding get_reference_by_id_def by (auto simp: find_None_iff)

lemma update_new: "k \<notin> fst ` set al \<Longrightarrow> AList.update k v al = al @ [(k, v)]"
  by (induction al) auto

lemma get_reference_by_id_distinct:
  "distinct (map ref_id (references st)) \<Longrightarrow> r \<in> set (references st) \<Longrightarrow>
   get_reference_by_id st (ref_id r) = Some r"
proof -
  have "distinct (map ref_id refs) \<Longrightarrow> r \<in> set refs \<Longrightarrow>
        find (\<lambda>ref. ref_id ref = ref_id r) refs = Some r" for refs :: "'a reference list"
  proof (induction refs)
    case Nil
    then show ?case by simp
  next
    case (Cons a refs)
    then show ?case by (cases "a = r") (auto simp: image_iff)
  qed
  then show "distinct (map ref_id (references st)) \<Longrightarrow> r \<in> set (references st) \<Longrightarrow>
   get_reference_by_id st (ref_id r) = Some r"
    by (simp add: get_reference_by_id_def)
qed

lemma renumbered_append: "renumbered st (a @ b) = renumbered st a @ renumbered st b"
  by (simp add: renumbered_def)

lemma fold_assign_cited:
  assumes "distinct order" "set order \<inter> fst ` set m = {}"
  shows "\<exists>nr'. fold (assign_cited st) order (m, nr, j)
           = (m @ number_from j (filter (\<lambda>i. i \<in> ref_id ` set (references st)) order), nr',
              j + int (length (filter (\<lambda>i. i \<in> ref_id ` set (references st)) order))) \<and>
           map Some nr' = map Some nr
             @ renumbered st (number_from j (filter (\<lambda>i. i \<in> ref_id ` set (references st)) order))"
  using assms
proof (induction order arbitrary: m nr j)
  case Nil
  show ?case by (simp add: renumbered_def)
next
  case (Cons x xs)
  show ?case
  proof (cases "x \<in> ref_id ` set (references st)")
    case True
    then obtain ref where ref: "get_reference_by_id st x = Some ref"
      using get_reference_by_id_Some by blast
    have new: "x \<notin> fst ` set m" using Cons.prems by auto
    have step: "assign_cited st x (m, nr, j) = (m @ [(x, j)], nr @ [ref\<lparr>ref_id := j\<rparr>], j + 1)"
      using ref new by (simp add: assign_cited_def update_new)
    have "distinct xs" "set xs \<inter> fst ` set (m @ [(x, j)]) = {}"
      using Cons.prems by auto
    from Cons.IH [OF this, of "nr @ [ref\<lparr>ref_id := j\<rparr>]" "j + 1"] True step ref
    show ?thesis by (auto simp: renumbered_def)
  next
    case False
    then have step: "assign_cited st x (m, nr, j) = (m, nr, j)"
      by (simp add: assign_cited_def get_reference_by_id_None)
    have "distinct xs" "set xs \<inter> fst ` set m = {}"
      using Cons.prems by auto
    from Cons.IH [OF this, of nr j] False step show ?thesis by simp
  qed
qed

lemma fold_assign_uncited:
  assumes "distinct (map ref_id refs)"
    and "\<forall>r\<in>set refs. get_reference_by_id st (ref_id r) = Some r"
    and "\<forall>r\<in>set refs. ref_id r \<notin> set order \<longrightarrow> ref_id r \<notin> fst ` set m"
  shows "\<exists>nr'. fold (assign_uncited order) refs (m, nr, j)
           = (m @ number_from j (filter (\<lambda>i. i \<notin> set order) (map ref_id refs)), nr',
              j + int (length (filter (\<lambda>i. i \<notin> set order) (map ref_id refs)))) \<and>
           map Some nr' = map Some nr
             @ renumbered st (number_from j (filter (\<lambda>i. i \<notin> set order) (map ref_id refs)))"
  using assms
proof (induction refs arbitrary: m nr j)
  case Nil
  show ?case by (simp add: renumbered_def)
next
  case (Cons r rs)
  show ?case
  proof (cases "ref_id r \<in> set order")
    case True
    then have step: "assign_uncited order r (m, nr, j) = (m, nr, j)"
      by (simp add: assign_uncited_def)
    have "distinct (map ref_id rs)"
      "\<forall>r\<in>set rs. get_reference_by_id st (ref_id r) = Some r"
      "\<forall>r\<in>set rs. ref_id r \<notin> set order \<longrightarrow> ref_id r \<notin> fst ` set m"
      using Cons.prems by auto
    from Cons.IH [OF this, of nr j] True step show ?thesis by simp
  next
    case False
    have new: "ref_id r \<notin> fst ` set m" using Cons.prems False by auto
    have get: "get_reference_by_id st (ref_id r) = Some r" using Cons.prems by simp
    have step: "assign_uncited order r (m, nr, j)
                  = (m @ [(ref_id r, j)], nr @ [r\<lparr>ref_id := j\<rparr>], j + 1)"
      using False new by (simp add: assign_uncited_def update_new)
    have other: "ref_id r' \<noteq> ref_id r" if "r' \<in> set rs" for r'
      using Cons.prems(1) that by (metis distinct.simps(2) image_eqI list.simps(9) set_map)
    have "distinct (map ref_id rs)"
      "\<forall>r\<in>set rs. get_reference_by_id st (ref_id r) = Some r"
      "\<forall>r'\<in>set rs. ref_id r' \<notin> set order \<longrightarrow> ref_id r' \<notin> fst ` set (m @ [(ref_id r, j)])"
      using Cons.prems other by auto
    from Cons.IH [OF this, of "nr @ [r\<lparr>ref_id := j\<rparr>]" "j + 1"] False step get
    show ?thesis by (auto simp: renumbered_def)
  qed
qed

lemma fold_assign_uncited_keeps_cited:
  "\<exists>m' extra j'. fold (assign_uncited order) refs (m, nr, j) = (m', nr @ extra, j') \<and>
               (\<forall>x\<in>set order. map_of m' x = map_of m x)"
proof (induction refs arbitrary: m nr j)
  case Nil
  show ?case by simp
next
  case (Cons r rs)
  show ?case
  proof (cases "ref_id r \<in> set order")
    case True
    then have "assign_uncited order r (m, nr, j) = (m, nr, j)"
      by (simp add: assign_uncited_def)
    with Cons.IH [of m nr j] show ?thesis by simp
  next
    case False
    then have step: "assign_uncited order r (m, nr, j)
                  = (AList.update (ref_id r) j m, nr @ [r\<lparr>ref_id := j\<rparr>], j + 1)"
      by (simp add: assign_uncited_def)
    from Cons.IH [of "AList.update (ref_id r) j m" "nr @ [r\<lparr>ref_id := j\<rparr>]" "j + 1"]
    obtain m' extra j' where
      f: "fold (assign_uncited order) rs (AList.update (ref_id r) j m, nr @ [r\<lparr>ref_id := j\<rparr>], j + 1)
            = (m', (nr @ [r\<lparr>ref_id := j\<rparr>]) @ extra, j')"
      and k: "\<forall>x\<in>set order. map_of m' x = map_of (AList.update (ref_id r) j m) x"
      by blast
    have "\<forall>x\<in>set order. map_of m' x = map_of m x"
      using k False by (auto simp: update_conv')
    with f step show ?thesis by (intro exI [of _ m'] exI [of _ "r\<lparr>ref_id := j\<rparr> # extra"] exI [of _ j']) simp
  qed
qed

lemma fold_assign_uncited_all_cited:
  "\<forall>r\<in>set refs. ref_id r \<in> set order \<Longrightarrow> fold (assign_uncited order) refs acc = acc"
  by (induction refs arbitrary: acc) (auto simp: assign_uncited_def)

lemma number_from_append:
  "number_from j (xs @ ys) = number_from j xs @ number_from (j + int (length xs)) ys"
  by (induction xs arbitrary: j) (simp_all add: add.assoc)

lemma map_fst_number_from: "map fst (number_from j xs) = xs"
  by (induction xs arbitrary: j) simp_all

lemma number_from_nth:
  "i < length xs \<Longrightarrow> number_from j xs ! i = (xs ! i, j + int i)"
proof (induction xs arbitrary: j i)
  case Nil
  then show ?case by simp
next
  case (Cons x xs)
  then show ?case by (cases i) (simp_all add: add.assoc)
qed

lemma length_number_from: "length (number_from j xs) = length xs"
  by (induction xs arbitrary: j) simp_all

lemma map_of_number_from:
  assumes "distinct xs" "i < length xs"
  shows "map_of (number_from j xs) (xs ! i) = Some (j + int i)"
proof -
  have "(xs ! i, j + int i) \<in> set (number_from j xs)"
    using assms(2) number_from_nth [of i xs j] nth_mem [of i "number_from j xs"]
    by (simp add: length_number_from)
  moreover have "distinct (map fst (number_from j xs))"
    using assms(1) by (simp add: map_fst_number_from)
  ultimately show ?thesis by simp
qed

lemma number_from_bij:
  assumes d: "distinct K"
  shows "bij_betw (\<lambda>i. the (map_of (number_from 1 K) i)) (set K) {1..int (length K)}"
proof -
  let ?f = "\<lambda>i. the (map_of (number_from 1 K) i)"
  have val: "?f (K ! i) = 1 + int i" if "i < length K" for i
    using map_of_number_from [OF d that, of 1] by simp
  have inj: "inj_on ?f (set K)"
  proof (rule inj_onI)
    fix a b assume "a \<in> set K" "b \<in> set K" and eq: "?f a = ?f b"
    then obtain i i' where i: "i < length K" "a = K ! i" and i': "i' < length K" "b = K ! i'"
      by (metis in_set_conv_nth)
    with eq val have "1 + int i = 1 + int i'" by simp
    then have "i = i'" by simp
    with i i' show "a = b" by simp
  qed
  have img: "?f ` set K = {1..int (length K)}"
  proof (intro set_eqI iffI)
    fix v assume "v \<in> ?f ` set K"
    then obtain a where "a \<in> set K" "v = ?f a" by blast
    then obtain i where "i < length K" "a = K ! i" by (metis in_set_conv_nth)
    with \<open>v = ?f a\<close> val show "v \<in> {1..int (length K)}" by simp
  next
    fix v assume v: "v \<in> {1..int (length K)}"
    then have lt: "nat (v - 1) < length K" by auto
    have "?f (K ! nat (v - 1)) = v" using val [OF lt] v by simp
    moreover have "K ! nat (v - 1) \<in> set K" using lt by simp
    ultimately show "v \<in> ?f ` set K" by (metis image_eqI)
  qed
  from inj img show ?thesis by (simp add: bij_betw_def)
qed


lemma map_snd_number_from: "map snd (number_from j xs) = map (\<lambda>i. j + int i) [0..<length xs]"
proof (rule nth_equalityI)
  show "length (map snd (number_from j xs)) = length (map (\<lambda>i. j + int i) [0..<length xs])"
    by (simp add: length_number_from)
next
  fix i assume "i < length (map snd (number_from j xs))"
  then have "i < length xs" by (simp add: length_number_from)
  then show "map snd (number_from j xs) ! i = map (\<lambda>i. j + int i) [0..<length xs] ! i"
    by (simp add: length_number_from number_from_nth)
qed

lemma renumbered_ids:
  "\<forall>p\<in>set m. fst p \<in> ref_id ` set (references st) \<Longrightarrow>
   map Some nr = renumbered st m \<Longrightarrow> map ref_id nr = map snd m"
proof (induction m arbitrary: nr)
  case Nil
  then show ?case by (simp add: renumbered_def)
next
  case (Cons p m)
  obtain old_id new_id where p: "p = (old_id, new_id)" by (cases p)
  from Cons.prems(2) obtain r rs where nr: "nr = r # rs"
    by (cases nr) (auto simp: renumbered_def)
  from Cons.prems(1) p obtain ref where "get_reference_by_id st old_id = Some ref"
    using get_reference_by_id_Some [of old_id st] by auto
  with Cons.prems(2) nr p have "r = ref\<lparr>ref_id := new_id\<rparr>" "map Some rs = renumbered st m"
    by (simp_all add: renumbered_def)
  with Cons.IH [of rs] Cons.prems(1) nr p show ?case by simp
qed

lemma reorder_long_numeral:
  assumes "digits d" "\<not> short d"
  shows "reorder_references_by_citation [(name, CHR ''['' # d @ '']'')] st = (None, st)"
proof -
  have "\<not> sections_within_limit [(name, CHR ''['' # d @ '']'')]"
    using assms by (simp add: sections_within_limit_def single_token_text(2))
  then have "scan_sections [(name, CHR ''['' # d @ '']'')] = Inl ValueError"
    by (intro scan_sections_fails) simp_all
  then show ?thesis by (simp add: reorder_references_by_citation_def)
qed

lemma cited_ids_single:
  assumes "digits d" "name \<notin> set known_sections"
  shows "cited_ids [(name, CHR ''['' # d @ '']'')] = [digits_value d]"
proof -
  have "canonical_order [(name, CHR ''['' # d @ '']'')] = [name]"
    using assms(2) by (auto simp: canonical_order_def filter_empty_conv)
  then show ?thesis
    using single_token_text [OF assms(1)] by (simp add: cited_ids_def)
qed

lemma zero_padded:
  assumes "max_str_digits \<le> n"
  shows "digits (replicate n CHR ''0'' @ ''1'')" "\<not> short (replicate n CHR ''0'' @ ''1'')"
    "digits_value (replicate n CHR ''0'' @ ''1'') = 1"
proof -
  show "digits (replicate n CHR ''0'' @ ''1'')"
    by (auto simp: digits_def list_all_iff is_digit_def)
  show "\<not> short (replicate n CHR ''0'' @ ''1'')"
    using assms by (simp add: short_def)
  have "foldl (\<lambda>n c. 10 * n + digit_val c) 0 (replicate k CHR ''0'') = 0" for k
    by (induction k) (simp_all add: digit_val_def)
  then show "digits_value (replicate n CHR ''0'' @ ''1'') = 1"
    by (simp add: digits_value_def digit_val_def)
qed

text \<open>
  Claim C9, amended. Without sections the operation returns nothing and leaves the
  manager as it was. With sections whose citation numerals have at most 4300 digits
  but without references it returns the empty mapping (not an error), the reference
  list stays empty, and every section's citation list and the global citation order
  are emptied: the IDs they held belong to no reference and are dropped. With a
  citation numeral of more than 4300 digits in a section it returns nothing and leaves
  the manager as it was.
\<close>

theorem C9_reorder_no_sections_or_no_references:
  "reorder_references_by_citation [] st = (None, st) \<and>
   (sections \<noteq> [] \<and> references st = [] \<and> sections_within_limit sections \<longrightarrow>
      reorder_references_by_citation sections st
        = (Some [], st\<lparr>citations := map (\<lambda>(section, ref_list). (section, [])) (citations st),
                       citation_order := []\<rparr>)) \<and>
   (distinct (map fst sections) \<and> \<not> sections_within_limit sections \<longrightarrow>
      reorder_references_by_citation sections st = (None, st))"
proof (intro conjI impI)
  show "reorder_references_by_citation [] st = (None, st)"
    by (simp add: reorder_references_by_citation_def)
next
  assume "sections \<noteq> [] \<and> references st = [] \<and> sections_within_limit sections"
  then show "reorder_references_by_citation sections st
        = (Some [], st\<lparr>citations := map (\<lambda>(section, ref_list). (section, [])) (citations st),
                       citation_order := []\<rparr>)"
    by (auto simp: reorder_references_by_citation_def scan_sections_within_limit
        fold_assign_cited_empty remap_ids_empty)
next
  assume "distinct (map fst sections) \<and> \<not> sections_within_limit sections"
  then have "scan_sections sections = Inl ValueError"
    using scan_sections_fails [of sections] by simp
  then show "reorder_references_by_citation sections st = (None, st)"
    by (simp add: reorder_references_by_citation_def)
qed

text \<open>
  The theorem of C9 on a manager without references whose section \<open>A\<close> cites ID 5,
  with a short and with an over-long numeral in the text.
\<close>

theorem C9_witness:
  "[(''A'', ''see [5]'')] \<noteq> [] \<and> references (add_citation ''A'' 5 (init_manager :: unit manager)) = [] \<and>
   sections_within_limit [(''A'', ''see [5]'')] \<and>
   reorder_references_by_citation [(''A'', ''see [5]'')] (add_citation ''A'' 5 (init_manager :: unit manager))
     = (Some [], \<lparr>references = [], citations = [(''A'', [])], citation_order = []\<rparr>) \<and>
   distinct (map fst [(''A'', CHR ''['' # replicate 4301 CHR ''9'' @ '']'')]) \<and>
   \<not> sections_within_limit [(''A'', CHR ''['' # replicate 4301 CHR ''9'' @ '']'')] \<and>
   reorder_references_by_citation [(''A'', CHR ''['' # replicate 4301 CHR ''9'' @ '']'')]
       (add_citation ''A'' 5 (init_manager :: unit manager))
     = (None, add_citation ''A'' 5 (init_manager :: unit manager))"
proof -
  let ?st = "add_citation ''A'' 5 (init_manager :: unit manager)"
  have h1: "[(''A'', ''see [5]'')] \<noteq> []" by simp
  have h2: "references ?st = []" by (simp add: add_citation_def init_manager_def)
  have h3: "sections_within_limit [(''A'', ''see [5]'')]" by code_simp
  have st: "?st = \<lparr>references = [], citations = [(''A'', [5])], citation_order = [5]\<rparr>"
    by (simp add: add_citation_def init_manager_def)
  from C9_reorder_no_sections_or_no_references [of ?st "[(''A'', ''see [5]'')]"] h1 h2 h3
  have a: "reorder_references_by_citation [(''A'', ''see [5]'')] ?st
        = (Some [], ?st\<lparr>citations := map (\<lambda>(section, ref_list). (section, [])) (citations ?st),
                       citation_order := []\<rparr>)"
    by blast
  have a': "reorder_references_by_citation [(''A'', ''see [5]'')] ?st
     = (Some [], \<lparr>references = [], citations = [(''A'', [])], citation_order = []\<rparr>)"
    unfolding a by (simp add: st)
  have n: "max_str_digits < 4301" by (simp add: max_str_digits_def)
  have d9: "is_digit CHR ''9''" by (simp add: is_digit_def)
  have h4: "distinct (map fst [(''A'', CHR ''['' # replicate 4301 CHR ''9'' @ '']'')])" by simp
  have h5: "\<not> sections_within_limit [(''A'', CHR ''['' # replicate 4301 CHR ''9'' @ '']'')]"
    using long_digit_run [OF d9 n] by (simp add: sections_within_limit_def single_token_text(2))
  from C9_reorder_no_sections_or_no_references
    [of ?st "[(''A'', CHR ''['' # replicate 4301 CHR ''9'' @ '']'')]"] h4 h5
  have b: "reorder_references_by_citation [(''A'', CHR ''['' # replicate 4301 CHR ''9'' @ '']'')] ?st
     = (None, ?st)"
    by blast
  from h1 h2 h3 a' h4 h5 b show ?thesis by blast
qed

text \<open>
  Claim C9 as stated fails: after \<open>add_citation('A', 5)\<close> on a fresh manager no
  reference exists, yet reordering changes the citation list of \<open>A\<close> from \<open>[5]\<close> to
  \<open>[]\<close> and the global citation order from \<open>[5]\<close> to \<open>[]\<close>.
\<close>

theorem C9_counterexample:
  "references (add_citation ''A'' 5 (init_manager :: unit manager)) = [] \<and>
   citations (add_citation ''A'' 5 (init_manager :: unit manager)) = [(''A'', [5])] \<and>
   citation_order (add_citation ''A'' 5 (init_manager :: unit manager)) = [5] \<and>
   citations (snd (reorder_references_by_citation [(''A'', ''see [5]'')]
                (add_citation ''A'' 5 (init_manager :: unit manager)))) = [(''A'', [])] \<and>
   citation_order (snd (reorder_references_by_citation [(''A'', ''see [5]'')]
                (add_citation ''A'' 5 (init_manager :: unit manager)))) = []"
  by code_simp

text \<open>
  Claim C2, amended. With at least one section, citation numerals of at most 4300
  digits and pairwise distinct reference IDs, the returned mapping is defined exactly
  on the IDs of the stored references and is a bijection from them onto \<open>1..n\<close>, \<open>n\<close>
  the number of references. The references whose ID no token of the texts cites get,
  in the order in which they are stored, the numbers \<open>k+1..n\<close>, \<open>k\<close> the number of
  references that are cited. The store afterwards holds, for each pair of the mapping
  in order, the reference of the old ID carrying the new ID, so its IDs read \<open>1..n\<close>;
  the citation lists and the global order are mapped through the mapping.
\<close>

theorem C2_id_mapping_is_a_bijection:
  assumes ne: "sections \<noteq> []" and dk: "distinct (map fst sections)"
    and lim: "sections_within_limit sections"
    and d: "distinct (map ref_id (references st))"
  shows "\<exists>m new_refs.
           reorder_references_by_citation sections st
             = (Some m,
                st\<lparr>references := new_refs,
                   citations := map (\<lambda>(section, ref_list). (section, List.map_filter (map_of m) ref_list))
                                    (citations st),
                   citation_order := List.map_filter (map_of m) (citation_order st)\<rparr>) \<and>
           map Some new_refs = renumbered st m \<and>
           map ref_id new_refs = map (\<lambda>i. int i + 1) [0..<length (references st)] \<and>
           dom (map_of m) = ref_id ` set (references st) \<and>
           bij_betw (\<lambda>i. the (map_of m i)) (ref_id ` set (references st))
                    {1..int (length (references st))} \<and>
           card (ref_id ` set (references st) \<inter> set (cited_ids sections))
             + length (filter (\<lambda>i. i \<notin> set (cited_ids sections)) (map ref_id (references st)))
             = length (references st) \<and>
           (\<forall>j < length (filter (\<lambda>i. i \<notin> set (cited_ids sections)) (map ref_id (references st))).
              map_of m (filter (\<lambda>i. i \<notin> set (cited_ids sections)) (map ref_id (references st)) ! j)
                = Some (int (card (ref_id ` set (references st) \<inter> set (cited_ids sections)))
                        + int j + 1))"
proof -
  define order where "order = first_appearance (cited_ids sections)"
  define ids where "ids = map ref_id (references st)"
  define L where "L = filter (\<lambda>i. i \<in> ref_id ` set (references st)) order"
  define U where "U = filter (\<lambda>i. i \<notin> set order) ids"
  define K where "K = L @ U"
  have so: "scan_sections sections = Inr order"
    using dk lim by (simp add: order_def scan_sections_eq)
  have sorder: "set order = set (cited_ids sections)"
    by (simp add: order_def first_appearance_def)
  have dorder: "distinct order" by (simp add: order_def first_appearance_def)
  have idset: "set ids = ref_id ` set (references st)" by (simp add: ids_def)
  from fold_assign_cited [of order "[]" st "[]" 1] dorder
  obtain nr1 where c: "fold (assign_cited st) order ([], [], 1)
      = (number_from 1 L, nr1, 1 + int (length L))"
    and n1: "map Some nr1 = renumbered st (number_from 1 L)"
    by (auto simp: L_def)
  have keys: "\<forall>r\<in>set (references st). ref_id r \<notin> set order \<longrightarrow> ref_id r \<notin> fst ` set (number_from 1 L)"
  proof -
    have "fst ` set (number_from 1 L) = set L"
      using map_fst_number_from [of 1 L] by (metis set_map)
    then show ?thesis by (auto simp: L_def)
  qed
  have gets: "\<forall>r\<in>set (references st). get_reference_by_id st (ref_id r) = Some r"
    using get_reference_by_id_distinct [OF d] by blast
  from fold_assign_uncited [OF d gets keys, of nr1 "1 + int (length L)"]
  obtain nr2 where u: "fold (assign_uncited order) (references st) (number_from 1 L, nr1, 1 + int (length L))
      = (number_from 1 K, nr2, 1 + int (length L) + int (length U))"
    and n2: "map Some nr2 = renumbered st (number_from 1 K)"
    by (auto simp: K_def U_def ids_def number_from_append renumbered_append n1)
  have res: "reorder_references_by_citation sections st
      = (Some (number_from 1 K),
         st\<lparr>references := nr2,
            citations := map (\<lambda>(section, ref_list). (section, List.map_filter (map_of (number_from 1 K)) ref_list))
                             (citations st),
            citation_order := List.map_filter (map_of (number_from 1 K)) (citation_order st)\<rparr>)"
    using ne c u by (simp add: reorder_references_by_citation_def so remap_ids_def)
  have dK: "distinct K"
    using dorder d by (auto simp: K_def L_def U_def ids_def)
  have setK: "set K = ref_id ` set (references st)"
    by (auto simp: K_def L_def U_def ids_def)
  have "length K = card (set K)" using dK by (simp add: distinct_card)
  also have "\<dots> = card (set ids)" by (simp add: setK idset)
  also have "\<dots> = length ids" using d distinct_card [of ids] by (simp add: ids_def)
  finally have lenK: "length K = length (references st)" by (simp add: ids_def)
  have "\<forall>p\<in>set (number_from 1 K). fst p \<in> ref_id ` set (references st)"
    using map_fst_number_from [of 1 K] setK by (metis image_eqI set_map)
  from renumbered_ids [OF this n2]
  have newids: "map ref_id nr2 = map (\<lambda>i. int i + 1) [0..<length (references st)]"
    by (simp add: map_snd_number_from lenK add.commute)
  have dom: "dom (map_of (number_from 1 K)) = ref_id ` set (references st)"
    using map_fst_number_from [of 1 K] setK
    by (metis dom_map_of_conv_image_fst set_map)
  have bij: "bij_betw (\<lambda>i. the (map_of (number_from 1 K) i)) (ref_id ` set (references st))
                    {1..int (length (references st))}"
    using number_from_bij [OF dK] by (simp add: setK lenK)
  have "set L = ref_id ` set (references st) \<inter> set order" by (auto simp: L_def)
  moreover have "distinct L" using dorder by (simp add: L_def)
  ultimately have k: "card (ref_id ` set (references st) \<inter> set order) = length L"
    by (metis distinct_card)
  have count: "card (ref_id ` set (references st) \<inter> set order) + length U = length (references st)"
    using k lenK by (simp add: K_def)
  have unc: "map_of (number_from 1 K) (U ! j)
               = Some (int (card (ref_id ` set (references st) \<inter> set order)) + int j + 1)"
    if "j < length U" for j
  proof -
    from that have lt: "length L + j < length K" by (simp add: K_def)
    have "K ! (length L + j) = U ! j" by (simp add: K_def nth_append)
    with map_of_number_from [OF dK lt, of 1] show ?thesis by (simp add: k)
  qed
  show ?thesis
    using res n2 newids dom bij count unc
    unfolding sorder U_def ids_def
    by (intro exI conjI) (assumption | blast)+
qed

text \<open>
  The theorem of C2 on the example sections and a manager with references 1 to 4, of
  which 4 is not cited.
\<close>

theorem C2_witness:
  "example_sections \<noteq> [] \<and> distinct (map fst example_sections) \<and>
   sections_within_limit example_sections \<and>
   distinct (map ref_id (references example_manager)) \<and>
   (\<exists>m new_refs.
           reorder_references_by_citation example_sections example_manager
             = (Some m,
                example_manager\<lparr>references := new_refs,
                   citations := map (\<lambda>(section, ref_list). (section, List.map_filter (map_of m) ref_list))
                                    (citations example_manager),
                   citation_order := List.map_filter (map_of m) (citation_order example_manager)\<rparr>) \<and>
           map Some new_refs = renumbered example_manager m \<and>
           map ref_id new_refs = map (\<lambda>i. int i + 1) [0..<length (references example_manager)] \<and>
           dom (map_of m) = ref_id ` set (references example_manager) \<and>
           bij_betw (\<lambda>i. the (map_of m i)) (ref_id ` set (references example_manager))
                    {1..int (length (references example_manager))} \<and>
           card (ref_id ` set (references example_manager) \<inter> set (cited_ids example_sections))
             + length (filter (\<lambda>i. i \<notin> set (cited_ids example_sections))
                        (map ref_id (references example_manager)))
             = length (references example_manager) \<and>
           (\<forall>j < length (filter (\<lambda>i. i \<notin> set (cited_ids example_sections))
                          (map ref_id (references example_manager))).
              map_of m (filter (\<lambda>i. i \<notin> set (cited_ids example_sections))
                          (map ref_id (references example_manager)) ! j)
                = Some (int (card (ref_id ` set (references example_manager)
                                   \<inter> set (cited_ids example_sections)))
                        + int j + 1)))"
proof -
  have h1: "example_sections \<noteq> []" by (simp add: example_sections_def)
  have h2: "distinct (map fst example_sections)" by (simp add: example_sections_def)
  have h3: "sections_within_limit example_sections" by code_simp
  have h4: "distinct (map ref_id (references example_manager))"
    by (simp add: example_manager_def)
  from C2_id_mapping_is_a_bijection [OF h1 h2 h3 h4] h1 h2 h3 h4 show ?thesis by blast
qed

text \<open>
  Claim C2 as stated fails: with a token of 4301 digits in the only section the
  operation returns no mapping at all and leaves the manager as it was, although the
  sections are not empty and the reference IDs are distinct.
\<close>

theorem C2_counterexample:
  "[(''Methods'', CHR ''['' # replicate 4301 CHR ''9'' @ '']'')] \<noteq> [] \<and>
   distinct (map ref_id (references example_manager)) \<and>
   reorder_references_by_citation [(''Methods'', CHR ''['' # replicate 4301 CHR ''9'' @ '']'')]
       example_manager
     = (None, example_manager)"
proof -
  have n: "max_str_digits < 4301" by (simp add: max_str_digits_def)
  have d9: "is_digit CHR ''9''" by (simp add: is_digit_def)
  have "distinct (map ref_id (references example_manager))"
    by (simp add: example_manager_def)
  with reorder_long_numeral [OF long_digit_run [OF d9 n], of "''Methods''" example_manager]
  show ?thesis by blast
qed

text \<open>
  Claim C1, amended. \<open>cited_ids\<close> lists the IDs of all tokens, token by token and within
  a token as written, over the sections in canonical order (the known section names
  first, then the other sections as given); \<open>first_appearance\<close> keeps the first
  occurrence of each. When the citation numerals have at most 4300 digits and every
  cited ID belongs to a reference, the returned mapping sends the \<open>i\<close>-th ID of that
  list to \<open>i\<close>, counting from 1, and the \<open>i\<close>-th reference of the store afterwards is the
  reference found under that ID, carrying the ID \<open>i\<close> (without sections nothing is
  cited). For the sections \<open>Intro\<close> and \<open>Methods\<close> of the example and references 1, 2, 3
  the mapping is \<open>{3:1, 1:2, 2:3}\<close> and the texts become \<open>finding [1] and [1,2]\<close> and
  \<open>see [3]\<close>.
\<close>

theorem C1_cited_references_numbered_by_first_appearance:
  "(sections \<noteq> [] \<and> distinct (map fst sections) \<and> sections_within_limit sections \<and>
    set (cited_ids sections) \<subseteq> ref_id ` set (references st) \<longrightarrow>
      (\<exists>m new_refs.
         reorder_references_by_citation sections st
           = (Some m,
              st\<lparr>references := new_refs,
                 citations := map (\<lambda>(section, ref_list). (section, List.map_filter (map_of m) ref_list))
                                  (citations st),
                 citation_order := List.map_filter (map_of m) (citation_order st)\<rparr>) \<and>
         (\<forall>i < length (first_appearance (cited_ids sections)).
            map_of m (first_appearance (cited_ids sections) ! i) = Some (int i + 1) \<and>
            i < length new_refs \<and>
            Some (new_refs ! i)
              = map_option (\<lambda>r. r\<lparr>ref_id := int i + 1\<rparr>)
                  (get_reference_by_id st (first_appearance (cited_ids sections) ! i))))) \<and>
   first_appearance (cited_ids []) = [] \<and>
   (ref_id ` set (references st) = {1, 2, 3} \<longrightarrow>
      fst (reorder_references_by_citation example_sections st) = Some [(3, 1), (1, 2), (2, 3)]) \<and>
   update_citations_in_text example_sections [(3, 1), (1, 2), (2, 3)]
     = Inr [(''Intro'', ''finding [1] and [1,2]''), (''Methods'', ''see [3]'')]"
proof (intro conjI impI)
  assume a: "sections \<noteq> [] \<and> distinct (map fst sections) \<and> sections_within_limit sections \<and>
    set (cited_ids sections) \<subseteq> ref_id ` set (references st)"
  define order where "order = first_appearance (cited_ids sections)"
  have so: "scan_sections sections = Inr order"
    using a by (simp add: order_def scan_sections_eq)
  have dorder: "distinct order" by (simp add: order_def first_appearance_def)
  have "set order = set (cited_ids sections)"
    by (simp add: order_def first_appearance_def)
  with a have "\<forall>i\<in>set order. i \<in> ref_id ` set (references st)" by blast
  then have live: "filter (\<lambda>i. i \<in> ref_id ` set (references st)) order = order"
    by (simp only: filter_True)
  from fold_assign_cited [of order "[]" st "[]" 1] dorder live
  obtain nr1 where c: "fold (assign_cited st) order ([], [], 1)
      = (number_from 1 order, nr1, 1 + int (length order))"
    and n1: "map Some nr1 = renumbered st (number_from 1 order)"
    by auto
  from fold_assign_uncited_keeps_cited [of order "references st" "number_from 1 order" nr1 "1 + int (length order)"]
  obtain m extra j2 where
    u: "fold (assign_uncited order) (references st) (number_from 1 order, nr1, 1 + int (length order))
          = (m, nr1 @ extra, j2)"
    and keep: "\<forall>x\<in>set order. map_of m x = map_of (number_from 1 order) x"
    by blast
  have res: "reorder_references_by_citation sections st
      = (Some m,
         st\<lparr>references := nr1 @ extra,
            citations := map (\<lambda>(section, ref_list). (section, List.map_filter (map_of m) ref_list)) (citations st),
            citation_order := List.map_filter (map_of m) (citation_order st)\<rparr>)"
    using a c u by (simp add: reorder_references_by_citation_def so remap_ids_def)
  have len1: "length nr1 = length order"
    using n1 by (metis length_map length_number_from renumbered_def)
  have each: "map_of m (order ! i) = Some (int i + 1) \<and> i < length (nr1 @ extra) \<and>
      Some ((nr1 @ extra) ! i)
        = map_option (\<lambda>r. r\<lparr>ref_id := int i + 1\<rparr>) (get_reference_by_id st (order ! i))"
    if i: "i < length order" for i
  proof -
    have "map_of m (order ! i) = Some (int i + 1)"
      using keep i map_of_number_from [OF dorder i, of 1] by simp
    moreover have "Some (nr1 ! i) = map Some nr1 ! i" using i len1 by simp
    then have "Some (nr1 ! i)
        = map_option (\<lambda>r. r\<lparr>ref_id := int i + 1\<rparr>) (get_reference_by_id st (order ! i))"
      using i by (simp add: n1 renumbered_def length_number_from number_from_nth add.commute)
    ultimately show ?thesis using i len1 by (simp add: nth_append)
  qed
  with res show "\<exists>m new_refs.
         reorder_references_by_citation sections st
           = (Some m,
              st\<lparr>references := new_refs,
                 citations := map (\<lambda>(section, ref_list). (section, List.map_filter (map_of m) ref_list))
                                  (citations st),
                 citation_order := List.map_filter (map_of m) (citation_order st)\<rparr>) \<and>
         (\<forall>i < length (first_appearance (cited_ids sections)).
            map_of m (first_appearance (cited_ids sections) ! i) = Some (int i + 1) \<and>
            i < length new_refs \<and>
            Some (new_refs ! i)
              = map_option (\<lambda>r. r\<lparr>ref_id := int i + 1\<rparr>)
                  (get_reference_by_id st (first_appearance (cited_ids sections) ! i)))"
    unfolding order_def by blast
next
  show "first_appearance (cited_ids []) = []"
    by (simp add: cited_ids_def canonical_order_def first_appearance_def)
next
  assume ids: "ref_id ` set (references st) = {1, 2, 3}"
  have so: "scan_sections example_sections = Inr [3, 1, 2]" by code_simp
  have live: "filter (\<lambda>i. i \<in> ref_id ` set (references st)) [3, 1, 2] = [3, 1, 2]"
    using ids by simp
  from fold_assign_cited [of "[3, 1, 2]" "[]" st "[]" 1] live
  obtain nr1 where c: "fold (assign_cited st) [3, 1, 2] ([], [], 1)
      = ([(3, 1), (1, 2), (2, 3)], nr1, 4)"
    by auto
  have "\<forall>r\<in>set (references st). ref_id r \<in> set [3, 1, 2]"
    using ids by auto
  from fold_assign_uncited_all_cited [OF this]
  have u: "fold (assign_uncited [3, 1, 2]) (references st) ([(3, 1), (1, 2), (2, 3)], nr1, 4)
             = ([(3, 1), (1, 2), (2, 3)], nr1, 4)" .
  have "example_sections \<noteq> []" by (simp add: example_sections_def)
  then show "fst (reorder_references_by_citation example_sections st) = Some [(3, 1), (1, 2), (2, 3)]"
    using c u by (simp add: reorder_references_by_citation_def so)
next
  show "update_citations_in_text example_sections [(3, 1), (1, 2), (2, 3)]
     = Inr [(''Intro'', ''finding [1] and [1,2]''), (''Methods'', ''see [3]'')]"
    by code_simp
qed

text \<open>
  The theorem of C1 on the example sections, and on sections of which the second has a
  known name and is therefore scanned first, with a manager holding references 1 to 4.
\<close>

theorem C1_witness:
  "example_sections \<noteq> [] \<and> distinct (map fst example_sections) \<and>
   sections_within_limit example_sections \<and>
   set (cited_ids example_sections) \<subseteq> ref_id ` set (references example_manager) \<and>
   first_appearance (cited_ids example_sections) = [3, 1, 2] \<and>
   (\<exists>m new_refs.
      reorder_references_by_citation example_sections example_manager
        = (Some m,
           example_manager\<lparr>references := new_refs,
              citations := map (\<lambda>(section, ref_list). (section, List.map_filter (map_of m) ref_list))
                               (citations example_manager),
              citation_order := List.map_filter (map_of m) (citation_order example_manager)\<rparr>) \<and>
      (\<forall>i < length (first_appearance (cited_ids example_sections)).
         map_of m (first_appearance (cited_ids example_sections) ! i) = Some (int i + 1) \<and>
         i < length new_refs \<and>
         Some (new_refs ! i)
           = map_option (\<lambda>r. r\<lparr>ref_id := int i + 1\<rparr>)
               (get_reference_by_id example_manager (first_appearance (cited_ids example_sections) ! i)))) \<and>
   known_first_sections \<noteq> [] \<and> distinct (map fst known_first_sections) \<and>
   sections_within_limit known_first_sections \<and>
   set (cited_ids known_first_sections) \<subseteq> ref_id ` set (references example_manager) \<and>
   first_appearance (cited_ids known_first_sections) = [4, 2, 1] \<and>
   (\<exists>m new_refs.
      reorder_references_by_citation known_first_sections example_manager
        = (Some m,
           example_manager\<lparr>references := new_refs,
              citations := map (\<lambda>(section, ref_list). (section, List.map_filter (map_of m) ref_list))
                               (citations example_manager),
              citation_order := List.map_filter (map_of m) (citation_order example_manager)\<rparr>) \<and>
      (\<forall>i < length (first_appearance (cited_ids known_first_sections)).
         map_of m (first_appearance (cited_ids known_first_sections) ! i) = Some (int i + 1) \<and>
         i < length new_refs \<and>
         Some (new_refs ! i)
           = map_option (\<lambda>r. r\<lparr>ref_id := int i + 1\<rparr>)
               (get_reference_by_id example_manager (first_appearance (cited_ids known_first_sections) ! i))))"
proof -
  have h1: "example_sections \<noteq> []" by (simp add: example_sections_def)
  have h2: "distinct (map fst example_sections)" by (simp add: example_sections_def)
  have h3: "sections_within_limit example_sections" by code_simp
  have h4: "set (cited_ids example_sections) \<subseteq> ref_id ` set (references example_manager)"
    by code_simp
  have h5: "first_appearance (cited_ids example_sections) = [3, 1, 2]" by code_simp
  have k1: "known_first_sections \<noteq> []" by (simp add: known_first_sections_def)
  have k2: "distinct (map fst known_first_sections)" by (simp add: known_first_sections_def)
  have k3: "sections_within_limit known_first_sections" by code_simp
  have k4: "set (cited_ids known_first_sections) \<subseteq> ref_id ` set (references example_manager)"
    by code_simp
  have k5: "first_appearance (cited_ids known_first_sections) = [4, 2, 1]" by code_simp
  from C1_cited_references_numbered_by_first_appearance [of example_sections example_manager]
    h1 h2 h3 h4
  have a: "\<exists>m new_refs.
      reorder_references_by_citation example_sections example_manager
        = (Some m,
           example_manager\<lparr>references := new_refs,
              citations := map (\<lambda>(section, ref_list). (section, List.map_filter (map_of m) ref_list))
                               (citations example_manager),
              citation_order := List.map_filter (map_of m) (citation_order example_manager)\<rparr>) \<and>
      (\<forall>i < length (first_appearance (cited_ids example_sections)).
         map_of m (first_appearance (cited_ids example_sections) ! i) = Some (int i + 1) \<and>
         i < length new_refs \<and>
         Some (new_refs ! i)
           = map_option (\<lambda>r. r\<lparr>ref_id := int i + 1\<rparr>)
               (get_reference_by_id example_manager (first_appearance (cited_ids example_sections) ! i)))"
    by blast
  from C1_cited_references_numbered_by_first_appearance [of known_first_sections example_manager]
    k1 k2 k3 k4
  have b: "\<exists>m new_refs.
      reorder_references_by_citation known_first_sections example_manager
        = (Some m,
           example_manager\<lparr>references := new_refs,
              citations := map (\<lambda>(section, ref_list). (section, List.map_filter (map_of m) ref_list))
                               (citations example_manager),
              citation_order := List.map_filter (map_of m) (citation_order example_manager)\<rparr>) \<and>
      (\<forall>i < length (first_appearance (cited_ids known_first_sections)).
         map_of m (first_appearance (cited_ids known_first_sections) ! i) = Some (int i + 1) \<and>
         i < length new_refs \<and>
         Some (new_refs ! i)
           = map_option (\<lambda>r. r\<lparr>ref_id := int i + 1\<rparr>)
               (get_reference_by_id example_manager (first_appearance (cited_ids known_first_sections) ! i)))"
    by blast
  from h1 h2 h3 h4 h5 a k1 k2 k3 k4 k5 b show ?thesis by (intro conjI)
qed

text \<open>
  Claim C1 as stated fails: the only token is the numeral 1 written with 4300 leading
  zeros, reference 1 exists, yet the operation returns no mapping and renumbers
  nothing.
\<close>

theorem C1_counterexample:
  "set (cited_ids [(''Intro'', CHR ''['' # (replicate 4300 CHR ''0'' @ ''1'') @ '']'')])
     \<subseteq> ref_id ` set (references example_manager) \<and>
   reorder_references_by_citation [(''Intro'', CHR ''['' # (replicate 4300 CHR ''0'' @ ''1'') @ '']'')]
       example_manager
     = (None, example_manager)"
proof -
  have n: "max_str_digits \<le> 4300" by (simp add: max_str_digits_def)
  note z = zero_padded [OF n]
  have k: "''Intro'' \<notin> set known_sections" by (simp add: known_sections_def)
  have "cited_ids [(''Intro'', CHR ''['' # (replicate 4300 CHR ''0'' @ ''1'') @ '']'')] = [1]"
    using cited_ids_single [OF z(1) k] z(3) by (simp only:)
  moreover have "(1::int) \<in> ref_id ` set (references example_manager)"
    by (simp add: example_manager_def)
  ultimately have a: "set (cited_ids [(''Intro'', CHR ''['' # (replicate 4300 CHR ''0'' @ ''1'') @ '']'')])
     \<subseteq> ref_id ` set (references example_manager)"
    by (simp only: list.set) simp
  from reorder_long_numeral [OF z(1) z(2), of "''Intro''" example_manager] a
  show ?thesis by blast
qed

end
